theory Spec2Isabelle
  imports Main "HOL-Library.Multiset"
begin

section \<open>Go strings\<close>

text \<open>
  A Go string is a sequence of bytes; a \<^typ>\<open>char\<close> is one byte.  The program reads
  its input in two ways: \<^verbatim>\<open>s[i]\<close> yields a byte, while \<^verbatim>\<open>for i, r := range s\<close>
  decodes UTF-8 and yields runes (code points), an invalid byte being read as
  \<^verbatim>\<open>utf8.RuneError\<close> of width one.  \<^verbatim>\<open>strings.Builder.WriteRune\<close> appends the
  UTF-8 encoding of a rune.  The functions below model this part of the Go
  standard library.
\<close>

type_synonym rune = nat

definition RuneError :: rune where
  "RuneError = 0xFFFD"

definition inRange :: "nat \<Rightarrow> nat \<Rightarrow> char \<Rightarrow> bool" where
  "inRange lo hi c \<longleftrightarrow> lo \<le> (of_char c :: nat) \<and> (of_char c :: nat) \<le> hi"

definition low6 :: "char \<Rightarrow> nat" where
  "low6 c = (of_char c :: nat) mod 64"

text \<open>\<^verbatim>\<open>utf8.DecodeRuneInString\<close>: the first rune of a string and its width in bytes.\<close>

fun decodeRune :: "string \<Rightarrow> rune \<times> nat" where
  "decodeRune [] = (RuneError, 0)"
| "decodeRune (c0 # s) =
     (let b0 = (of_char c0 :: nat) in
      if b0 < 0x80 then (b0, 1)
      else if b0 < 0xC2 then (RuneError, 1)
      else if b0 < 0xE0 then
        (case s of
           c1 # _ \<Rightarrow>
             if inRange 0x80 0xBF c1 then ((b0 mod 32) * 64 + low6 c1, 2)
             else (RuneError, 1)
         | _ \<Rightarrow> (RuneError, 1))
      else if b0 < 0xF0 then
        (case s of
           c1 # c2 # _ \<Rightarrow>
             if inRange (if b0 = 0xE0 then 0xA0 else 0x80) (if b0 = 0xED then 0x9F else 0xBF) c1
                \<and> inRange 0x80 0xBF c2
             then (((b0 mod 16) * 64 + low6 c1) * 64 + low6 c2, 3)
             else (RuneError, 1)
         | _ \<Rightarrow> (RuneError, 1))
      else if b0 < 0xF5 then
        (case s of
           c1 # c2 # c3 # _ \<Rightarrow>
             if inRange (if b0 = 0xF0 then 0x90 else 0x80) (if b0 = 0xF4 then 0x8F else 0xBF) c1
                \<and> inRange 0x80 0xBF c2 \<and> inRange 0x80 0xBF c3
             then ((((b0 mod 8) * 64 + low6 c1) * 64 + low6 c2) * 64 + low6 c3, 4)
             else (RuneError, 1)
         | _ \<Rightarrow> (RuneError, 1))
      else (RuneError, 1))"

text \<open>\<^verbatim>\<open>utf8.AppendRune\<close>, the bytes \<^verbatim>\<open>WriteRune\<close> appends to a builder.\<close>

definition encodeRune :: "rune \<Rightarrow> string" where
  "encodeRune r =
     (if r < 0x80 then [char_of r]
      else if r < 0x800 then [char_of (0xC0 + r div 64), char_of (0x80 + r mod 64)]
      else if 0x10FFFF < r \<or> (0xD800 \<le> r \<and> r \<le> 0xDFFF) then [CHR 0xEF, CHR 0xBF, CHR 0xBD]
      else if r < 0x10000 then
        [char_of (0xE0 + r div 4096), char_of (0x80 + (r div 64) mod 64), char_of (0x80 + r mod 64)]
      else
        [char_of (0xF0 + r div 262144), char_of (0x80 + (r div 4096) mod 64),
         char_of (0x80 + (r div 64) mod 64), char_of (0x80 + r mod 64)])"

text \<open>The runes that \<^verbatim>\<open>for _, r := range s\<close> visits, in order.\<close>

function runes :: "string \<Rightarrow> rune list" where
  "runes s = (if s = [] then [] else fst (decodeRune s) # runes (drop (snd (decodeRune s)) s))"
  by pat_completeness auto
termination
proof (relation "measure length")
  fix s :: string
  assume "s \<noteq> []"
  then obtain c cs where "s = c # cs" by (cases s) auto
  then have "0 < snd (decodeRune s)"
    by (auto simp: Let_def split: list.splits)
  then show "(drop (snd (decodeRune s)) s, s) \<in> measure length"
    using \<open>s \<noteq> []\<close> by simp
qed simp

declare runes.simps [simp del]

text \<open>\<^verbatim>\<open>utf8.DecodeLastRuneInString\<close>: the last rune of a string and its width.\<close>

definition RuneStart :: "char \<Rightarrow> bool" where
  "RuneStart c \<longleftrightarrow> \<not> inRange 0x80 0xBF c"

definition decodeLastRune :: "string \<Rightarrow> rune \<times> nat" where
  "decodeLastRune s =
     (if s = [] then (RuneError, 0)
      else if (of_char (last s) :: nat) < 0x80 then (of_char (last s), 1)
      else
        (case find (\<lambda>k. k \<le> length s \<and> RuneStart (s ! (length s - k))) [2, 3, 4] of
           None \<Rightarrow> (RuneError, 1)
         | Some k \<Rightarrow>
             (let (r, size) = decodeRune (drop (length s - k) s)
              in if size = k then (r, size) else (RuneError, 1))))"

text \<open>\<^verbatim>\<open>unicode.IsSpace\<close>.\<close>

definition isSpace :: "rune \<Rightarrow> bool" where
  "isSpace r \<longleftrightarrow>
     r \<in> {0x09, 0x0A, 0x0B, 0x0C, 0x0D, 0x20, 0x85, 0xA0, 0x1680, 0x2028, 0x2029, 0x202F, 0x205F, 0x3000}
     \<or> (0x2000 \<le> r \<and> r \<le> 0x200A)"

text \<open>
  \<^verbatim>\<open>strings.TrimSpace\<close> removes the leading and the trailing runes that are white
  space: first from the left, decoding forwards, then from the right, decoding
  backwards.
\<close>

function trimLeftSpace :: "string \<Rightarrow> string" where
  "trimLeftSpace s =
     (if s \<noteq> [] \<and> isSpace (fst (decodeRune s)) then trimLeftSpace (drop (snd (decodeRune s)) s)
      else s)"
  by pat_completeness auto
termination
proof (relation "measure length")
  fix s :: string
  assume "s \<noteq> [] \<and> isSpace (fst (decodeRune s))"
  then obtain c cs where "s = c # cs" by (cases s) auto
  then have "0 < snd (decodeRune s)"
    by (auto simp: Let_def split: list.splits)
  then show "(drop (snd (decodeRune s)) s, s) \<in> measure length"
    using \<open>s = c # cs\<close> by simp
qed simp

function trimRightSpace :: "string \<Rightarrow> string" where
  "trimRightSpace s =
     (if s \<noteq> [] \<and> isSpace (fst (decodeLastRune s))
      then trimRightSpace (take (length s - snd (decodeLastRune s)) s)
      else s)"
  by pat_completeness auto
termination
proof (relation "measure length")
  fix s :: string
  assume a: "s \<noteq> [] \<and> isSpace (fst (decodeLastRune s))"
  have "0 < snd (decodeLastRune s)"
    using a by (auto simp: decodeLastRune_def Let_def split: option.splits prod.splits if_splits)
  then show "(take (length s - snd (decodeLastRune s)) s, s) \<in> measure length"
    using a by simp
qed simp

declare trimLeftSpace.simps [simp del] trimRightSpace.simps [simp del]

definition TrimSpace :: "string \<Rightarrow> string" where
  "TrimSpace s = trimRightSpace (trimLeftSpace s)"

text \<open>
  \<^verbatim>\<open>strings.TrimLeft\<close> and \<^verbatim>\<open>strings.TrimRight\<close> for a cutset of ASCII characters
  (the program passes \<^verbatim>\<open>"{"\<close>, \<^verbatim>\<open>"}"\<close> and \<^verbatim>\<open>")"\<close>): bytes of the cutset are removed
  from one end.
\<close>

definition TrimLeft :: "string \<Rightarrow> string \<Rightarrow> string" where
  "TrimLeft s cutset = dropWhile (\<lambda>c. c \<in> set cutset) s"

definition TrimRight :: "string \<Rightarrow> string \<Rightarrow> string" where
  "TrimRight s cutset = rev (dropWhile (\<lambda>c. c \<in> set cutset) (rev s))"

definition HasSuffix :: "string \<Rightarrow> string \<Rightarrow> bool" where
  "HasSuffix s suffix \<longleftrightarrow>
     length suffix \<le> length s \<and> drop (length s - length suffix) s = suffix"

definition TrimSuffix :: "string \<Rightarrow> string \<Rightarrow> string" where
  "TrimSuffix s suffix = (if HasSuffix s suffix then take (length s - length suffix) s else s)"

text \<open>ASCII text: every byte is below \<^verbatim>\<open>utf8.RuneSelf\<close>.\<close>

definition isAscii :: "char \<Rightarrow> bool" where
  "isAscii c \<longleftrightarrow> (of_char c :: nat) < 0x80"

text \<open>\<^verbatim>\<open>strings.Count(s, "c")\<close> for a one-byte separator.\<close>

definition Count :: "string \<Rightarrow> char \<Rightarrow> nat" where
  "Count s c = count_list s c"

section \<open>Expressions and their equivalence\<close>

type_synonym logicalOperator = string
type_synonym comparisonOperator = string

definition loAnd :: logicalOperator where "loAnd = ''&&''"
definition loOr :: logicalOperator where "loOr = ''||''"

definition coEqual :: comparisonOperator where "coEqual = ''=''"
definition coNotEqual :: comparisonOperator where "coNotEqual = ''!=''"
definition coNotExists :: comparisonOperator where "coNotExists = ''NOT EXISTS''"

definition listLogicalOperators :: "logicalOperator list" where
  "listLogicalOperators = [loAnd, loOr]"

definition listComparisonOperator :: "comparisonOperator list" where
  "listComparisonOperator = [coNotExists, coNotEqual, coEqual]"

text \<open>
  The two implementations of the interface \<^verbatim>\<open>expression\<close>: the struct
  \<^verbatim>\<open>simpleExpression{left, right, operator}\<close> and the struct
  \<^verbatim>\<open>complexExpression{operator, expressions}\<close>.
\<close>

datatype expression =
    simpleExpression string string comparisonOperator
  | complexExpression logicalOperator "expression list"

text \<open>
  \<^verbatim>\<open>isEquivalent\<close> of both structs, the loop over \<^verbatim>\<open>c.expressions\<close> in
  \<^verbatim>\<open>complexExpression.isEquivalent\<close> (\<open>matchExpressions\<close>; its second argument
  is the shrinking copy \<^verbatim>\<open>otherExpressions\<close>) and \<^verbatim>\<open>findEquivalentPos\<close>.
\<close>

fun isEquivalent :: "expression \<Rightarrow> expression \<Rightarrow> bool"
and matchExpressions :: "expression list \<Rightarrow> expression list \<Rightarrow> bool"
and findEquivalentPos :: "expression \<Rightarrow> expression list \<Rightarrow> nat option"
where
  "isEquivalent (simpleExpression l r opr) o' =
     (case o' of
        complexExpression _ _ \<Rightarrow> False
      | simpleExpression l' r' opr' \<Rightarrow>
          if opr' \<noteq> opr then False
          else if l' = l \<and> r' = r then True
          else if l' = r \<and> r' = l then True
          else False)"
| "isEquivalent (complexExpression opr es) o' =
     (case o' of
        simpleExpression _ _ _ \<Rightarrow> False
      | complexExpression opr' es' \<Rightarrow>
          if opr' \<noteq> opr then False
          else if length es \<noteq> length es' then False
          else matchExpressions es es')"
| "matchExpressions [] otherExpressions = True"
| "matchExpressions (exp # rest) otherExpressions =
     (case findEquivalentPos exp otherExpressions of
        Some idx \<Rightarrow>
          matchExpressions rest (butlast (otherExpressions[idx := last otherExpressions]))
      | None \<Rightarrow> False)"
| "findEquivalentPos exp [] = None"
| "findEquivalentPos exp (expB # bs) =
     (if isEquivalent exp expB then Some 0
      else map_option Suc (findEquivalentPos exp bs))"

section \<open>The parser\<close>

datatype error =
    BrokenParenthesis
  | MaxDepthReached
  | AlternatingLogicalOperators
  | MultipleComparisonOperators
  | MissingOperator
  | MaxDepthReachedAt nat
  | NestedParenthesis

definition hasSuffixComparisonOp :: "string \<Rightarrow> comparisonOperator option" where
  "hasSuffixComparisonOp s = find (\<lambda>op. HasSuffix s op) listComparisonOperator"

definition hasSuffixLogicalOp :: "string \<Rightarrow> logicalOperator option" where
  "hasSuffixLogicalOp s = find (\<lambda>op. HasSuffix s op) listLogicalOperators"

fun parseSimpleStatement_loop ::
  "rune list \<Rightarrow> string \<Rightarrow> string \<Rightarrow> comparisonOperator \<Rightarrow> bool \<Rightarrow>
   error + (string \<times> string \<times> comparisonOperator \<times> bool)" where
  "parseSimpleStatement_loop [] buf left operator foundOp = Inr (buf, left, operator, foundOp)"
| "parseSimpleStatement_loop (r # rs) buf left operator foundOp =
     (if buf = [] \<and> (r = of_char CHR '' '' \<or> r = of_char CHR ''('') then
        parseSimpleStatement_loop rs buf left operator foundOp
      else
        (let tmpString = buf @ encodeRune r in
         case hasSuffixComparisonOp tmpString of
           Some op \<Rightarrow>
             if foundOp then Inl MultipleComparisonOperators
             else parseSimpleStatement_loop rs [] (TrimSpace (TrimSuffix tmpString op)) op True
         | None \<Rightarrow> parseSimpleStatement_loop rs tmpString left operator foundOp))"

definition parseSimpleStatement :: "string \<Rightarrow> error + expression" where
  "parseSimpleStatement s =
     (case parseSimpleStatement_loop (runes s) [] [] [] False of
        Inl err \<Rightarrow> Inl err
      | Inr (buf, left, operator, foundOp) \<Rightarrow>
          if \<not> foundOp then Inl MissingOperator
          else Inr (simpleExpression left (TrimSpace (TrimRight (TrimSpace buf) '')'')) operator))"

fun matchingParenthesisPos_loop :: "string \<Rightarrow> int \<Rightarrow> nat \<Rightarrow> nat option" where
  "matchingParenthesisPos_loop [] parenthesisStack i = None"
| "matchingParenthesisPos_loop (r # rs) parenthesisStack i =
     (let stack1 = (if r = CHR ''('' then parenthesisStack + 1 else parenthesisStack);
          stack2 = (if r = CHR '')'' then stack1 - 1 else stack1)
      in if stack2 = 0 then Some i else matchingParenthesisPos_loop rs stack2 (i + 1))"

definition matchingParenthesisPos :: "string \<Rightarrow> nat option" where
  "matchingParenthesisPos s = matchingParenthesisPos_loop s 0 0"

definition maxDepth :: nat where
  "maxDepth = 5"

function safeParse_loop ::
  "(string \<Rightarrow> error + expression) \<Rightarrow> string \<Rightarrow> string \<Rightarrow> logicalOperator \<Rightarrow> expression list \<Rightarrow>
   error + (string \<times> logicalOperator \<times> expression list)" where
  "safeParse_loop sub [] buf logicalOp expressions = Inr (buf, logicalOp, expressions)"
| "safeParse_loop sub (r # rest) buf logicalOp expressions =
     (if r = CHR ''('' then
        (case matchingParenthesisPos (r # rest) of
           None \<Rightarrow> Inl BrokenParenthesis
         | Some pos \<Rightarrow>
             (case sub (take (pos - 1) rest) of
                Inl err \<Rightarrow> Inl err
              | Inr exp \<Rightarrow> safeParse_loop sub (drop pos rest) buf logicalOp (expressions @ [exp])))
      else
        (let tmpString = buf @ encodeRune (of_char r) in
         case hasSuffixLogicalOp tmpString of
           None \<Rightarrow> safeParse_loop sub rest tmpString logicalOp expressions
         | Some op \<Rightarrow>
             (let logicalOp' = (if logicalOp = [] then op else logicalOp) in
              if logicalOp' \<noteq> op then Inl AlternatingLogicalOperators
              else
                (let expStr = TrimSpace (TrimSuffix tmpString op) in
                 if length expStr > 0 then
                   (case parseSimpleStatement expStr of
                      Inl err \<Rightarrow> Inl err
                    | Inr exp \<Rightarrow> safeParse_loop sub rest [] logicalOp' (expressions @ [exp]))
                 else safeParse_loop sub rest [] logicalOp' expressions))))"
  by pat_completeness auto
termination
  by (relation "measure (\<lambda>(sub, s, buf, logicalOp, expressions). length s)") auto

function safeParse :: "string \<Rightarrow> nat \<Rightarrow> error + expression" where
  "safeParse s depth =
     (if depth > maxDepth then Inl MaxDepthReached
      else
        (case safeParse_loop (\<lambda>subS. safeParse subS (depth + 1)) s [] [] [] of
           Inl err \<Rightarrow> Inl err
         | Inr (buf, logicalOp, expressions) \<Rightarrow>
             (let expStr = TrimSpace buf in
              case (if length expStr > 0
                    then (case parseSimpleStatement expStr of
                            Inl err \<Rightarrow> Inl err
                          | Inr exp \<Rightarrow> Inr (expressions @ [exp]))
                    else Inr expressions) of
                Inl err \<Rightarrow> Inl err
              | Inr expressions' \<Rightarrow>
                  if length expressions' = 1 then Inr (expressions' ! 0)
                  else Inr (complexExpression logicalOp expressions'))))"
  by pat_completeness auto
termination
  by (relation "measure (\<lambda>(s, depth). Suc maxDepth - depth)") auto

declare safeParse_loop.simps [simp del] safeParse.simps [simp del]

definition parse :: "string \<Rightarrow> error + expression" where
  "parse s =
     (let cleanS = TrimSpace (TrimRight (TrimLeft (TrimSpace s) ''{'') ''}'') in
      if Count s CHR ''('' \<noteq> Count s CHR '')'' then Inl BrokenParenthesis
      else safeParse cleanS 0)"

definition areCloudWatchExpressionsEquivalent :: "string \<Rightarrow> string \<Rightarrow> bool \<times> error option" where
  "areCloudWatchExpressionsEquivalent a b =
     (case parse a of
        Inl err \<Rightarrow> (False, Some err)
      | Inr statementA \<Rightarrow>
          (case parse b of
             Inl err \<Rightarrow> (False, Some err)
           | Inr statementB \<Rightarrow> (isEquivalent statementA statementB, None)))"

section \<open>The earlier parser, limited to two nested parentheses\<close>

text \<open>
  The repository also holds the earlier version of the parser.  It shares
  \<^verbatim>\<open>hasSuffixLogicalOp\<close> and \<^verbatim>\<open>hasSuffixComparisonOp\<close> with the later one, ranges
  over the runes of its input, counts parentheses instead of locating the
  matching one, and parses every fragment by a recursive call.  Its functions
  carry the suffix \<open>_old\<close>.  On an error both versions return a placeholder next
  to it (\<^verbatim>\<open>nil\<close>, resp. \<^verbatim>\<open>simpleExpression{}\<close>), which the model drops.
\<close>

fun parseSimpleStatement_old_loop ::
  "rune list \<Rightarrow> string \<Rightarrow> string \<Rightarrow> comparisonOperator \<Rightarrow> bool \<Rightarrow>
   error + (string \<times> string \<times> comparisonOperator \<times> bool)" where
  "parseSimpleStatement_old_loop [] buf left operator foundOp = Inr (buf, left, operator, foundOp)"
| "parseSimpleStatement_old_loop (r # rs) buf left operator foundOp =
     (if buf = [] \<and> (r = of_char CHR '' '' \<or> r = of_char CHR ''('') then
        parseSimpleStatement_old_loop rs buf left operator foundOp
      else
        (let tmpString = buf @ encodeRune r in
         case hasSuffixComparisonOp tmpString of
           Some op \<Rightarrow>
             if foundOp then Inl MultipleComparisonOperators
             else parseSimpleStatement_old_loop rs [] (TrimSpace (TrimSuffix tmpString op)) op True
         | None \<Rightarrow> parseSimpleStatement_old_loop rs tmpString left operator foundOp))"

definition parseSimpleStatement_old :: "string \<Rightarrow> error + expression" where
  "parseSimpleStatement_old s =
     (case parseSimpleStatement_old_loop (runes s) [] [] [] False of
        Inl err \<Rightarrow> Inl err
      | Inr (buf, left, operator, foundOp) \<Rightarrow>
          if \<not> foundOp then Inl MissingOperator
          else Inr (simpleExpression left (TrimSpace (TrimRight (TrimSpace buf) '')'')) operator))"

fun safeParse_old_loop ::
  "(string \<Rightarrow> error + expression) \<Rightarrow> rune list \<Rightarrow> string \<Rightarrow> int \<Rightarrow> logicalOperator \<Rightarrow>
   expression list \<Rightarrow> bool \<Rightarrow> error + (string \<times> logicalOperator \<times> expression list)" where
  "safeParse_old_loop sub [] buf parenthesisAcc logicalOp expressions isInsideSubExp =
     Inr (buf, logicalOp, expressions)"
| "safeParse_old_loop sub (r # rs) buf parenthesisAcc logicalOp expressions isInsideSubExp =
     (if r = of_char CHR ''('' then
        (let parenthesisAcc' = parenthesisAcc + 1;
             isInsideSubExp' = (if parenthesisAcc' > 1 then True else isInsideSubExp)
         in if parenthesisAcc' > 3 then Inl NestedParenthesis
            else safeParse_old_loop sub rs buf parenthesisAcc' logicalOp expressions isInsideSubExp')
      else if r = of_char CHR '')'' then
        (let parenthesisAcc' = parenthesisAcc - 1
         in if parenthesisAcc' < 0 then Inl BrokenParenthesis
            else safeParse_old_loop sub rs buf parenthesisAcc' logicalOp expressions isInsideSubExp)
      else if isInsideSubExp then
        (let buf' = buf @ encodeRune r in
         if parenthesisAcc = 0 then
           (case sub buf' of
              Inl err \<Rightarrow> Inl err
            | Inr exp \<Rightarrow>
                safeParse_old_loop sub rs [] parenthesisAcc logicalOp (expressions @ [exp]) False)
         else safeParse_old_loop sub rs buf' parenthesisAcc logicalOp expressions isInsideSubExp)
      else
        (case hasSuffixLogicalOp buf of
           Some op \<Rightarrow>
             (let logicalOp' = (if logicalOp = [] then op else logicalOp) in
              if logicalOp' \<noteq> op then Inl AlternatingLogicalOperators
              else
                (let exprStr = TrimSuffix buf op in
                 if length exprStr > 0 then
                   (case sub exprStr of
                      Inl err \<Rightarrow> Inl err
                    | Inr exp \<Rightarrow>
                        safeParse_old_loop sub rs (encodeRune r) parenthesisAcc logicalOp'
                          (expressions @ [exp]) isInsideSubExp)
                 else
                   safeParse_old_loop sub rs (encodeRune r) parenthesisAcc logicalOp'
                     expressions isInsideSubExp))
         | None \<Rightarrow>
             safeParse_old_loop sub rs (buf @ encodeRune r) parenthesisAcc logicalOp
               expressions isInsideSubExp))"

function safeParse_old :: "string \<Rightarrow> nat \<Rightarrow> error + expression" where
  "safeParse_old s depth =
     (if depth > 2 then Inl (MaxDepthReachedAt depth)
      else
        (case safeParse_old_loop (\<lambda>subS. safeParse_old subS (depth + 1)) (runes s) [] 0 [] [] False of
           Inl err \<Rightarrow> Inl err
         | Inr (buf, logicalOp, expressions) \<Rightarrow>
             if length expressions = 0 then parseSimpleStatement_old s
             else
               (case (if length buf > 0
                      then (case safeParse_old buf (depth + 1) of
                              Inl err \<Rightarrow> Inl err
                            | Inr exp \<Rightarrow> Inr (expressions @ [exp]))
                      else Inr expressions) of
                  Inl err \<Rightarrow> Inl err
                | Inr expressions' \<Rightarrow> Inr (complexExpression logicalOp expressions'))))"
  by pat_completeness auto
termination
  by (relation "measure (\<lambda>(s, depth). 3 - depth)") auto

declare safeParse_old.simps [simp del]

definition parse_old :: "string \<Rightarrow> error + expression" where
  "parse_old s =
     (let cleanS = TrimSpace (TrimRight (TrimLeft (TrimSpace s) ''{'') ''}'') in
      safeParse_old cleanS 0)"

section \<open>Notions used in the statements\<close>

text \<open>
  \<open>good S\<close>: on the expressions of \<open>S\<close>, \<^const>\<open>isEquivalent\<close> is reflexive, symmetric
  and transitive.
\<close>

definition good :: "expression set \<Rightarrow> bool" where
  "good S \<longleftrightarrow> (\<forall>x\<in>S. isEquivalent x x) \<and> (\<forall>x\<in>S. \<forall>y\<in>S. isEquivalent x y \<longrightarrow> isEquivalent y x)
     \<and> (\<forall>x\<in>S. \<forall>y\<in>S. \<forall>z\<in>S. isEquivalent x y \<longrightarrow> isEquivalent y z \<longrightarrow> isEquivalent x z)"


text \<open>
  A perfect one-to-one pairing of two lists of children: some rearrangement of
  the second list is equivalent to the first, position by position.
\<close>

definition perfectPairing :: "expression list \<Rightarrow> expression list \<Rightarrow> bool" where
  "perfectPairing es es' \<longleftrightarrow> (\<exists>q. mset q = mset es' \<and> list_all2 isEquivalent es q)"

text \<open>
  The input of \<^const>\<open>parse\<close> without the surrounding white space and braces: the
  value of its local variable \<^verbatim>\<open>cleanS\<close>.
\<close>

definition stripped :: "string \<Rightarrow> string" where
  "stripped s = TrimSpace (TrimRight (TrimLeft (TrimSpace s) ''{'') ''}'')"

text \<open>The two parenthesis characters.\<close>

definition paren :: "char \<Rightarrow> bool" where
  "paren c \<longleftrightarrow> c = CHR ''('' \<or> c = CHR '')''"

text \<open>\<^verbatim>\<open>strings.Contains\<close>: the second string occurs in the first.\<close>

fun Contains :: "string \<Rightarrow> string \<Rightarrow> bool" where
  "Contains [] substr \<longleftrightarrow> substr = []"
| "Contains (c # s) substr \<longleftrightarrow> take (length substr) (c # s) = substr \<or> Contains s substr"


definition freeText :: "string \<Rightarrow> bool" where
  "freeText x \<longleftrightarrow> list_all (\<lambda>c. isAscii c \<and> c \<noteq> CHR ''('' \<and> c \<noteq> CHR ''&'' \<and> c \<noteq> CHR ''|'') x"

definition sideText :: "string \<Rightarrow> bool" where
  "sideText x \<longleftrightarrow>
     list_all (\<lambda>c. isAscii c \<and> c \<notin> set ''()&|='') x \<and> \<not> Contains x ''NOT EXISTS''"

text \<open>A comparison: two sides around one comparison operator.\<close>

inductive comparison :: "string \<Rightarrow> bool" where
  sides: "op \<in> set listComparisonOperator \<Longrightarrow> sideText l \<Longrightarrow> sideText r \<Longrightarrow>
          comparison (l @ op @ r)"





text \<open>
  The nesting depth of a string: the greatest number of parentheses that are open
  at the same time while the string is read from left to right.  A closing
  parenthesis met while none is open closes nothing.  \<open>nestingFrom s cur\<close> starts
  with \<open>cur\<close> parentheses open.
\<close>

fun nestingFrom :: "string \<Rightarrow> nat \<Rightarrow> nat" where
  "nestingFrom [] cur = cur"
| "nestingFrom (c # s) cur =
     max cur (nestingFrom s (if c = CHR ''('' then cur + 1 else if c = CHR '')'' then cur - 1 else cur))"

definition nestingDepth :: "string \<Rightarrow> nat" where
  "nestingDepth s = nestingFrom s 0"

text \<open>
  \<^const>\<open>safeParse\<close> and \<^const>\<open>parse\<close> with the constant \<^const>\<open>maxDepth\<close> replaced by a
  parameter.  An input is legal apart from its depth when it parses under some
  limit.
\<close>

function safeParse_upto :: "nat \<Rightarrow> string \<Rightarrow> nat \<Rightarrow> error + expression" where
  "safeParse_upto lim s depth =
     (if depth > lim then Inl MaxDepthReached
      else
        (case safeParse_loop (\<lambda>subS. safeParse_upto lim subS (depth + 1)) s [] [] [] of
           Inl err \<Rightarrow> Inl err
         | Inr (buf, logicalOp, expressions) \<Rightarrow>
             (let expStr = TrimSpace buf in
              case (if length expStr > 0
                    then (case parseSimpleStatement expStr of
                            Inl err \<Rightarrow> Inl err
                          | Inr exp \<Rightarrow> Inr (expressions @ [exp]))
                    else Inr expressions) of
                Inl err \<Rightarrow> Inl err
              | Inr expressions' \<Rightarrow>
                  if length expressions' = 1 then Inr (expressions' ! 0)
                  else Inr (complexExpression logicalOp expressions'))))"
  by pat_completeness auto
termination
  by (relation "measure (\<lambda>(lim, s, depth). Suc lim - depth)") auto

declare safeParse_upto.simps [simp del]

definition parse_upto :: "nat \<Rightarrow> string \<Rightarrow> error + expression" where
  "parse_upto lim s =
     (let cleanS = TrimSpace (TrimRight (TrimLeft (TrimSpace s) ''{'') ''}'') in
      if Count s CHR ''('' \<noteq> Count s CHR '')'' then Inl BrokenParenthesis
      else safeParse_upto lim cleanS 0)"

text \<open>
  The body of the loop of \<^const>\<open>safeParse\<close> for a character other than an opening
  parenthesis: the new buffer, operator and children, or an error.
\<close>

definition scanChar ::
  "char \<Rightarrow> string \<Rightarrow> logicalOperator \<Rightarrow> expression list \<Rightarrow>
   error + (string \<times> logicalOperator \<times> expression list)" where
  "scanChar r buf logicalOp expressions =
     (let tmpString = buf @ encodeRune (of_char r) in
      case hasSuffixLogicalOp tmpString of
        None \<Rightarrow> Inr (tmpString, logicalOp, expressions)
      | Some op \<Rightarrow>
          (let logicalOp' = (if logicalOp = [] then op else logicalOp) in
           if logicalOp' \<noteq> op then Inl AlternatingLogicalOperators
           else
             (let expStr = TrimSpace (TrimSuffix tmpString op) in
              if length expStr > 0 then
                (case parseSimpleStatement expStr of
                   Inl err \<Rightarrow> Inl err
                 | Inr exp \<Rightarrow> Inr ([], logicalOp', expressions @ [exp]))
              else Inr ([], logicalOp', expressions))))"

section \<open>Equivalence is an equivalence relation, and the greedy matching is exact\<close>

lemma findEquivalentPos_Some:
  "findEquivalentPos e pool = Some i \<Longrightarrow> i < length pool \<and> isEquivalent e (pool ! i)"
proof (induction pool arbitrary: i)
  case Nil
  then show ?case by simp
next
  case (Cons b bs)
  then show ?case by (auto split: if_splits)
qed

lemma findEquivalentPos_None:
  "findEquivalentPos e pool = None \<longleftrightarrow> (\<forall>y \<in> set pool. \<not> isEquivalent e y)"
  by (induction pool) auto

lemma mset_swap_remove:
  assumes "i < length pool"
  shows "mset (butlast (pool[i := last pool])) = mset pool - {# pool ! i #}"
proof -
  from assms have ne: "pool \<noteq> []" by auto
  then obtain ys y where p: "pool = ys @ [y]" by (metis rev_exhaust)
  show ?thesis
  proof (cases "i = length ys")
    case True
    then show ?thesis using p by simp
  next
    case False
    with assms p have lt: "i < length ys" by simp
    then have "butlast (pool[i := last pool]) = ys[i := y]"
      using p by (simp add: list_update_append)
    moreover have "mset (ys[i := y]) = mset ys - {# ys ! i #} + {# y #}"
      using lt by (simp add: mset_update)
    moreover have "ys ! i \<in># mset ys" using lt by simp
    ultimately show ?thesis using p lt
      by (simp add: nth_append)
  qed
qed

lemma matchExpressions_sound:
  "matchExpressions xs pool \<Longrightarrow>
     \<exists>q. mset q \<subseteq># mset pool \<and> list_all2 isEquivalent xs q"
proof (induction xs arbitrary: pool)
  case Nil
  then show ?case by simp
next
  case (Cons e rest)
  from Cons.prems obtain i where i: "findEquivalentPos e pool = Some i"
    and m: "matchExpressions rest (butlast (pool[i := last pool]))"
    by (auto split: option.splits)
  from findEquivalentPos_Some[OF i] have il: "i < length pool" and ei: "isEquivalent e (pool ! i)"
    by auto
  from Cons.IH[OF m] obtain q where q: "mset q \<subseteq># mset (butlast (pool[i := last pool]))"
    and l: "list_all2 isEquivalent rest q" by blast
  have "mset ((pool ! i) # q) \<subseteq># mset pool"
    using q il by (simp add: mset_swap_remove insert_subset_eq_iff)
  moreover have "list_all2 isEquivalent (e # rest) ((pool ! i) # q)" using ei l by simp
  ultimately show ?case by blast
qed


lemma sub1: "mset (y # q') \<subseteq># mset pool \<Longrightarrow> mset q' \<subseteq># mset pool - {# y #}"
  by (simp add: insert_subset_eq_iff)


lemma sub2:
  assumes "mset (y # q') \<subseteq># M" "z \<notin> set q'"
  shows "mset q' \<subseteq># M - {# z #}"
proof (rule mset_subset_eqI)
  fix a
  have c: "count (mset (y # q')) a \<le> count M a" using assms(1) by (rule mset_subset_eq_count)
  have z0: "count (mset q') z = 0" using assms(2) by (simp add: count_mset_0_iff)
  show "count (mset q') a \<le> count (M - {# z #}) a"
  proof (cases "a = z")
    case True
    with z0 have "count (mset q') a = 0" by blast
    then show ?thesis by linarith
  next
    case False
    then show ?thesis using c by (auto split: if_splits)
  qed
qed

lemma sub3:
  assumes "mset (y # q') \<subseteq># M" "z \<noteq> y" "z \<in> set q'"
  shows "mset q' - {# z #} + {# y #} \<subseteq># M - {# z #}"
proof (rule mset_subset_eqI)
  fix a
  have c: "count (mset (y # q')) a \<le> count M a" using assms(1) by (rule mset_subset_eq_count)
  show "count (mset q' - {# z #} + {# y #}) a \<le> count (M - {# z #}) a"
    using c assms(2) by (cases "a = z") (auto split: if_splits)
qed

lemma matchExpressions_complete:
  assumes rect: "\<And>x e y z. x \<in> set xs \<Longrightarrow> e \<in> set xs \<Longrightarrow> y \<in> set pool \<Longrightarrow> z \<in> set pool \<Longrightarrow>
            isEquivalent x z \<Longrightarrow> isEquivalent e z \<Longrightarrow> isEquivalent e y \<Longrightarrow> isEquivalent x y"
    and "mset q \<subseteq># mset pool" and "list_all2 isEquivalent xs q"
  shows "matchExpressions xs pool"
  using assms
proof (induction xs arbitrary: pool q)
  case Nil
  then show ?case by simp
next
  case (Cons e rest)
  from Cons.prems(3) obtain y q' where q: "q = y # q'" and ey: "isEquivalent e y"
    and l: "list_all2 isEquivalent rest q'"
    by (auto simp: list_all2_Cons1)
  have sub: "mset (y # q') \<subseteq># mset pool" using Cons.prems(2) q by simp
  have yin: "y \<in> set pool" using sub
    by (metis list.set_intros(1) mset_subset_eqD set_mset_mset)
  then have "findEquivalentPos e pool \<noteq> None" using ey by (auto simp: findEquivalentPos_None)
  then obtain i where i: "findEquivalentPos e pool = Some i" by auto
  from findEquivalentPos_Some[OF i] have il: "i < length pool" and ez: "isEquivalent e (pool ! i)"
    by auto
  define z where "z = pool ! i"
  define pool' where "pool' = butlast (pool[i := last pool])"
  have mp: "mset pool' = mset pool - {# z #}" unfolding pool'_def z_def using il by (rule mset_swap_remove)
  have zin: "z \<in> set pool" using il z_def by simp
  have ez': "isEquivalent e z" using ez z_def by simp
  have "\<exists>q2. mset q2 \<subseteq># mset pool' \<and> list_all2 isEquivalent rest q2"
  proof (cases "z = y")
    case True
    have "mset q' \<subseteq># mset pool - {# y #}" using sub by (rule sub1)
    then show ?thesis using l mp True by auto
  next
    case False
    show ?thesis
    proof (cases "z \<in> set q'")
      case False
      have "mset q' \<subseteq># mset pool - {# z #}" using sub False by (rule sub2)
      then show ?thesis using l mp by auto
    next
      case True
      then obtain j where j: "j < length q'" and qj: "q' ! j = z"
        by (auto simp: in_set_conv_nth)
      have lenr: "length rest = length q'" using l by (simp add: list_all2_lengthD)
      define x where "x = rest ! j"
      have xz: "isEquivalent x z" using l j qj x_def by (metis list_all2_nthD2)
      have xin: "x \<in> set (e # rest)" using j lenr x_def by simp
      have ein: "e \<in> set (e # rest)" by simp
      have xy: "isEquivalent x y"
        using Cons.prems(1)[OF xin ein yin zin xz ez' ey] .
      define q2 where "q2 = q'[j := y]"
      have "list_all2 isEquivalent rest q2"
        using l xy j lenr unfolding q2_def x_def
        by (simp add: list_all2_conv_all_nth nth_list_update)
      moreover have "mset q2 \<subseteq># mset pool'"
      proof -
        have "mset q2 = mset q' - {# z #} + {# y #}" using j qj q2_def by (simp add: mset_update)
        moreover have "mset q' - {# z #} + {# y #} \<subseteq># mset pool - {# z #}"
          using sub \<open>z \<noteq> y\<close> True by (rule sub3)
        ultimately show ?thesis using mp by simp
      qed
      ultimately show ?thesis by blast
    qed
  qed
  then obtain q2 where q2: "mset q2 \<subseteq># mset pool'" and l2: "list_all2 isEquivalent rest q2"
    by blast
  have ss: "set pool' \<subseteq> set pool"
    using mp by (metis in_diffD set_mset_mset subsetI)
  have "matchExpressions rest pool'"
  proof (rule Cons.IH[OF _ q2 l2])
    fix x e' y' z'
    assume "x \<in> set rest" "e' \<in> set rest" "y' \<in> set pool'" "z' \<in> set pool'"
      "isEquivalent x z'" "isEquivalent e' z'" "isEquivalent e' y'"
    then show "isEquivalent x y'"
      using Cons.prems(1)[of x e' y' z'] ss by auto
  qed
  then show ?case using i pool'_def by simp
qed


lemma mset_sub_same_size:
  assumes "A \<subseteq># B" "size A = size B"
  shows "A = (B :: 'a multiset)"
proof -
  from assms(1) obtain C where C: "B = A + C" by (auto simp: mset_subset_eq_exists_conv)
  with assms(2) have "C = {#}" by simp
  with C show ?thesis by simp
qed

lemma child_size: "x \<in> set es \<Longrightarrow> size x < size (complexExpression opr es)"
  by (induction es) auto

lemma group_char:
  assumes "good S" "set es \<subseteq> S" "set ds \<subseteq> S"
  shows "isEquivalent (complexExpression opr es) (complexExpression opr' ds) \<longleftrightarrow>
         opr' = opr \<and> (\<exists>q. mset q = mset ds \<and> list_all2 isEquivalent es q)"
proof
  assume eq: "isEquivalent (complexExpression opr es) (complexExpression opr' ds)"
  then have o: "opr' = opr" and len: "length es = length ds" and m: "matchExpressions es ds"
    by (auto split: if_splits)
  from matchExpressions_sound[OF m] obtain q where q: "mset q \<subseteq># mset ds"
    and l: "list_all2 isEquivalent es q" by blast
  have "size (mset q) = size (mset ds)" using l len by (simp add: list_all2_lengthD[symmetric])
  with q have "mset q = mset ds" by (rule mset_sub_same_size)
  with o l show "opr' = opr \<and> (\<exists>q. mset q = mset ds \<and> list_all2 isEquivalent es q)" by blast
next
  assume "opr' = opr \<and> (\<exists>q. mset q = mset ds \<and> list_all2 isEquivalent es q)"
  then obtain q where o: "opr' = opr" and q: "mset q = mset ds" and l: "list_all2 isEquivalent es q"
    by blast
  have len: "length es = length ds" using l q by (metis list_all2_lengthD mset_eq_length)
  have "matchExpressions es ds"
  proof (rule matchExpressions_complete[where q = q])
    show "mset q \<subseteq># mset ds" using q by simp
    show "list_all2 isEquivalent es q" by fact
    fix x e y z
    assume "x \<in> set es" "e \<in> set es" "y \<in> set ds" "z \<in> set ds"
      "isEquivalent x z" "isEquivalent e z" "isEquivalent e y"
    then show "isEquivalent x y" using assms unfolding good_def
      by (meson subsetD)
  qed
  then show "isEquivalent (complexExpression opr es) (complexExpression opr' ds)"
    using o len by simp
qed


lemma simple_sym:
  "isEquivalent (simpleExpression l r p) b \<Longrightarrow> isEquivalent b (simpleExpression l r p)"
  by (cases b) (auto split: if_splits)

lemma simple_trans:
  "isEquivalent (simpleExpression l r p) b \<Longrightarrow> isEquivalent b c \<Longrightarrow>
   isEquivalent (simpleExpression l r p) c"
  by (cases b; cases c) (auto split: if_splits)

lemma size0_simple: "size x \<le> 0 \<Longrightarrow> \<exists>l r p. x = simpleExpression l r p"
  by (cases x) auto

lemma children_small:
  assumes "size (complexExpression opr es) \<le> Suc n"
  shows "set es \<subseteq> {x. size x \<le> n}"
proof
  fix x assume "x \<in> set es"
  then have "size x < size (complexExpression opr es)" by (rule child_size)
  with assms show "x \<in> {x. size x \<le> n}" by simp
qed

lemma goodD:
  assumes "good S"
  shows "x \<in> S \<Longrightarrow> isEquivalent x x"
    and "x \<in> S \<Longrightarrow> y \<in> S \<Longrightarrow> isEquivalent x y \<Longrightarrow> isEquivalent y x"
    and "x \<in> S \<Longrightarrow> y \<in> S \<Longrightarrow> z \<in> S \<Longrightarrow> isEquivalent x y \<Longrightarrow> isEquivalent y z \<Longrightarrow> isEquivalent x z"
  using assms unfolding good_def by blast+

lemma goodI:
  assumes "\<And>x. x \<in> S \<Longrightarrow> isEquivalent x x"
    and "\<And>x y. x \<in> S \<Longrightarrow> y \<in> S \<Longrightarrow> isEquivalent x y \<Longrightarrow> isEquivalent y x"
    and "\<And>x y z. x \<in> S \<Longrightarrow> y \<in> S \<Longrightarrow> z \<in> S \<Longrightarrow> isEquivalent x y \<Longrightarrow> isEquivalent y z \<Longrightarrow> isEquivalent x z"
  shows "good S"
  unfolding good_def using assms by blast

lemma list_all2_sym_on:
  assumes "list_all2 isEquivalent xs ys" "good S" "set xs \<subseteq> S" "set ys \<subseteq> S"
  shows "list_all2 isEquivalent ys xs"
  using assms(1,3,4)
proof (induction rule: list_all2_induct)
  case Nil
  then show ?case by simp
next
  case (Cons x xs y ys)
  then show ?case using goodD(2)[OF assms(2), of x y] by simp
qed

lemma list_all2_trans_on:
  assumes "list_all2 isEquivalent xs ys" "list_all2 isEquivalent ys zs" "good S"
    "set xs \<subseteq> S" "set ys \<subseteq> S" "set zs \<subseteq> S"
  shows "list_all2 isEquivalent xs zs"
  using assms(1,2,4,5,6)
proof (induction arbitrary: zs rule: list_all2_induct)
  case Nil
  then show ?case by simp
next
  case (Cons x xs y ys)
  from Cons.prems(1) obtain z zs' where zs: "zs = z # zs'" and yz: "isEquivalent y z"
    and l: "list_all2 isEquivalent ys zs'" by (auto simp: list_all2_Cons1)
  have "isEquivalent x z"
    using goodD(3)[OF assms(3), of x y z] Cons.hyps(1) yz Cons.prems zs by simp
  moreover have "list_all2 isEquivalent xs zs'"
    using Cons.IH[OF l] Cons.prems zs by simp
  ultimately show ?case using zs by simp
qed

lemma list_all2_refl_on:
  assumes "good S" "set xs \<subseteq> S"
  shows "list_all2 isEquivalent xs xs"
  using assms(2) goodD(1)[OF assms(1)] by (induction xs) auto

lemma group_refl:
  assumes "good S" "set es \<subseteq> S"
  shows "isEquivalent (complexExpression opr es) (complexExpression opr es)"
  using group_char[OF assms(1) assms(2) assms(2), of opr opr] list_all2_refl_on[OF assms]
  by blast

lemma group_sym:
  assumes g: "good S" and es: "set es \<subseteq> S" and ds: "set ds \<subseteq> S"
    and eq: "isEquivalent (complexExpression opr es) (complexExpression opr' ds)"
  shows "isEquivalent (complexExpression opr' ds) (complexExpression opr es)"
proof -
  from eq group_char[OF g es ds, of opr opr'] obtain q where o: "opr' = opr"
    and q: "mset q = mset ds" and l: "list_all2 isEquivalent es q" by blast
  have qs: "set q \<subseteq> S" using q ds by (metis set_mset_mset)
  have l': "list_all2 isEquivalent q es" using l g es qs by (rule list_all2_sym_on)
  from list_all2_reorder_left_invariance[OF l', of ds] q
  obtain es' where "list_all2 isEquivalent ds es'" "mset es' = mset es" by auto
  then show ?thesis using group_char[OF g ds es, of opr' opr] o by blast
qed

lemma group_trans:
  assumes g: "good S" and es: "set es \<subseteq> S" and ds: "set ds \<subseteq> S" and fs: "set fs \<subseteq> S"
    and eq1: "isEquivalent (complexExpression opr es) (complexExpression opr' ds)"
    and eq2: "isEquivalent (complexExpression opr' ds) (complexExpression opr'' fs)"
  shows "isEquivalent (complexExpression opr es) (complexExpression opr'' fs)"
proof -
  from eq1 group_char[OF g es ds, of opr opr'] obtain q where o: "opr' = opr"
    and q: "mset q = mset ds" and l: "list_all2 isEquivalent es q" by blast
  from eq2 group_char[OF g ds fs, of opr' opr''] obtain r where o': "opr'' = opr'"
    and r: "mset r = mset fs" and l2: "list_all2 isEquivalent ds r" by blast
  from list_all2_reorder_left_invariance[OF l2, of q] q
  obtain r' where l3: "list_all2 isEquivalent q r'" and r': "mset r' = mset r" by auto
  have qs: "set q \<subseteq> S" using q ds by (metis set_mset_mset)
  have rs: "set r' \<subseteq> S" using r r' fs by (metis set_mset_mset)
  have "list_all2 isEquivalent es r'" using l l3 g es qs rs by (rule list_all2_trans_on)
  moreover have "mset r' = mset fs" using r r' by simp
  ultimately show ?thesis using group_char[OF g es fs, of opr opr''] o o' by blast
qed

lemma good_size: "good {x. size x \<le> n}"
proof (induction n)
  case 0
  show ?case
  proof (rule goodI)
    fix x :: expression assume "x \<in> {x. size x \<le> 0}"
    then show "isEquivalent x x" using size0_simple[of x] by auto
  next
    fix x y :: expression assume "x \<in> {x. size x \<le> 0}" "isEquivalent x y"
    then show "isEquivalent y x" using size0_simple[of x] simple_sym by auto
  next
    fix x y z :: expression assume "x \<in> {x. size x \<le> 0}" "isEquivalent x y" "isEquivalent y z"
    then show "isEquivalent x z" using size0_simple[of x] simple_trans by blast
  qed
next
  case (Suc n)
  show ?case
  proof (rule goodI)
    fix x :: expression assume "x \<in> {x. size x \<le> Suc n}"
    then have sx: "size x \<le> Suc n" by simp
    show "isEquivalent x x"
    proof (cases x)
      case (simpleExpression l r p)
      then show ?thesis by simp
    next
      case (complexExpression opr es)
      have "set es \<subseteq> {x. size x \<le> n}" using sx complexExpression children_small by blast
      from group_refl[OF Suc this] show ?thesis unfolding complexExpression .
    qed
  next
    fix x y :: expression
    assume "x \<in> {x. size x \<le> Suc n}" "y \<in> {x. size x \<le> Suc n}" and xy: "isEquivalent x y"
    then have sx: "size x \<le> Suc n" and sy: "size y \<le> Suc n" by simp_all
    show "isEquivalent y x"
    proof (cases x)
      case (simpleExpression l r p)
      then show ?thesis using xy simple_sym by blast
    next
      case cx: (complexExpression opr es)
      then obtain opr' ds where cy: "y = complexExpression opr' ds"
        using xy by (cases y) auto
      have e: "set es \<subseteq> {x. size x \<le> n}" using sx cx children_small by blast
      have d: "set ds \<subseteq> {x. size x \<le> n}" using sy cy children_small by blast
      from group_sym[OF Suc e d xy[unfolded cx cy]] show ?thesis unfolding cx cy .
    qed
  next
    fix x y z :: expression
    assume "x \<in> {x. size x \<le> Suc n}" "y \<in> {x. size x \<le> Suc n}" "z \<in> {x. size x \<le> Suc n}"
      and xy: "isEquivalent x y" and yz: "isEquivalent y z"
    then have sx: "size x \<le> Suc n" and sy: "size y \<le> Suc n" and sz: "size z \<le> Suc n" by simp_all
    show "isEquivalent x z"
    proof (cases x)
      case (simpleExpression l r p)
      then show ?thesis using xy yz simple_trans by blast
    next
      case cx: (complexExpression opr es)
      then obtain opr' ds where cy: "y = complexExpression opr' ds"
        using xy by (cases y) auto
      then obtain opr'' fs where cz: "z = complexExpression opr'' fs"
        using yz by (cases z) auto
      have e: "set es \<subseteq> {x. size x \<le> n}" using sx cx children_small by blast
      have d: "set ds \<subseteq> {x. size x \<le> n}" using sy cy children_small by blast
      have f: "set fs \<subseteq> {x. size x \<le> n}" using sz cz children_small by blast
      from group_trans[OF Suc e d f xy[unfolded cx cy] yz[unfolded cy cz]]
      show ?thesis unfolding cx cz .
    qed
  qed
qed

lemma isEquivalent_refl: "isEquivalent x x"
  using goodD(1)[OF good_size[of "size x"], of x] by simp

lemma isEquivalent_sym: "isEquivalent x y \<Longrightarrow> isEquivalent y x"
  using goodD(2)[OF good_size[of "max (size x) (size y)"], of x y] by simp

lemma isEquivalent_trans: "isEquivalent x y \<Longrightarrow> isEquivalent y z \<Longrightarrow> isEquivalent x z"
  using goodD(3)[OF good_size[of "max (size x) (max (size y) (size z))"], of x y z] by simp

lemma good_UNIV: "good UNIV"
  by (rule goodI) (blast intro: isEquivalent_refl isEquivalent_sym isEquivalent_trans)+

section \<open>Go strings on ASCII text\<close>

lemma decodeRune_ascii: "isAscii c \<Longrightarrow> decodeRune (c # s) = (of_char c, 1)"
  by (simp add: isAscii_def)

lemma runes_Nil: "runes [] = []"
  by (simp add: runes.simps)

lemma runes_ascii_Cons: "isAscii c \<Longrightarrow> runes (c # s) = of_char c # runes s"
  by (subst runes.simps) (simp add: decodeRune_ascii del: decodeRune.simps)

lemma runes_ascii: "list_all isAscii s \<Longrightarrow> runes s = map of_char s"
  by (induction s) (simp_all add: runes_Nil runes_ascii_Cons)

lemma encodeRune_ascii: "isAscii c \<Longrightarrow> encodeRune (of_char c) = [c]"
  by (simp add: encodeRune_def isAscii_def)

lemma trimLeftSpace_Nil: "trimLeftSpace [] = []"
  by (simp add: trimLeftSpace.simps)

lemma trimLeftSpace_ascii_Cons:
  "isAscii c \<Longrightarrow>
   trimLeftSpace (c # s) = (if isSpace (of_char c) then trimLeftSpace s else c # s)"
  by (subst trimLeftSpace.simps) (simp add: decodeRune_ascii del: decodeRune.simps)

lemma trimLeftSpace_ascii:
  "list_all isAscii s \<Longrightarrow> trimLeftSpace s = dropWhile (\<lambda>c. isSpace (of_char c)) s"
  by (induction s) (simp_all add: trimLeftSpace_Nil trimLeftSpace_ascii_Cons)

lemma trimRightSpace_Nil: "trimRightSpace [] = []"
  by (simp add: trimRightSpace.simps)

lemma trimRightSpace_ascii_snoc:
  "isAscii c \<Longrightarrow>
   trimRightSpace (s @ [c]) = (if isSpace (of_char c) then trimRightSpace s else s @ [c])"
  by (subst trimRightSpace.simps) (simp add: decodeLastRune_def isAscii_def)

lemma trimRightSpace_ascii:
  "list_all isAscii s \<Longrightarrow> trimRightSpace s = rev (dropWhile (\<lambda>c. isSpace (of_char c)) (rev s))"
  by (induction s rule: rev_induct) (simp_all add: trimRightSpace_Nil trimRightSpace_ascii_snoc)

lemma list_all_dropWhile: "list_all P s \<Longrightarrow> list_all P (dropWhile Q s)"
  by (induction s) auto

lemma TrimSpace_ascii:
  "list_all isAscii s \<Longrightarrow>
   TrimSpace s = rev (dropWhile (\<lambda>c. isSpace (of_char c)) (rev (dropWhile (\<lambda>c. isSpace (of_char c)) s)))"
  by (simp add: TrimSpace_def trimLeftSpace_ascii trimRightSpace_ascii list_all_dropWhile)

section \<open>Unfolding the scans on ASCII text\<close>

lemma rune_is_space: "(of_char c :: nat) = of_char CHR '' '' \<longleftrightarrow> c = CHR '' ''"
  by (rule of_char_eq_iff)

lemma rune_is_open: "(of_char c :: nat) = of_char CHR ''('' \<longleftrightarrow> c = CHR ''(''"
  by (rule of_char_eq_iff)

lemma rune_is_close: "(of_char c :: nat) = of_char CHR '')'' \<longleftrightarrow> c = CHR '')''"
  by (rule of_char_eq_iff)

lemma parseSimpleStatement_loop_ascii:
  "parseSimpleStatement_loop (runes (c # s)) buf left operator foundOp =
     (if buf = [] \<and> (c = CHR '' '' \<or> c = CHR ''('') then
        parseSimpleStatement_loop (runes s) buf left operator foundOp
      else
        (case hasSuffixComparisonOp (buf @ [c]) of
           Some op \<Rightarrow>
             if foundOp then Inl MultipleComparisonOperators
             else parseSimpleStatement_loop (runes s) [] (TrimSpace (TrimSuffix (buf @ [c]) op)) op True
         | None \<Rightarrow> parseSimpleStatement_loop (runes s) (buf @ [c]) left operator foundOp))"
  if "isAscii c"
  unfolding runes_ascii_Cons[of c s, OF that] parseSimpleStatement_loop.simps
    rune_is_space rune_is_open encodeRune_ascii[OF that] Let_def ..

lemma parseSimpleStatement_loop_runes_Nil:
  "parseSimpleStatement_loop (runes []) buf left operator foundOp = Inr (buf, left, operator, foundOp)"
  by (simp add: runes_Nil)

lemma safeParse_loop_ascii:
  "isAscii r \<Longrightarrow>
   safeParse_loop sub (r # rest) buf logicalOp expressions =
     (if r = CHR ''('' then
        (case matchingParenthesisPos (r # rest) of
           None \<Rightarrow> Inl BrokenParenthesis
         | Some pos \<Rightarrow>
             (case sub (take (pos - 1) rest) of
                Inl err \<Rightarrow> Inl err
              | Inr exp \<Rightarrow> safeParse_loop sub (drop pos rest) buf logicalOp (expressions @ [exp])))
      else
        (case hasSuffixLogicalOp (buf @ [r]) of
           None \<Rightarrow> safeParse_loop sub rest (buf @ [r]) logicalOp expressions
         | Some op \<Rightarrow>
             if (if logicalOp = [] then op else logicalOp) \<noteq> op then Inl AlternatingLogicalOperators
             else if length (TrimSpace (TrimSuffix (buf @ [r]) op)) > 0 then
               (case parseSimpleStatement (TrimSpace (TrimSuffix (buf @ [r]) op)) of
                  Inl err \<Rightarrow> Inl err
                | Inr exp \<Rightarrow>
                    safeParse_loop sub rest [] (if logicalOp = [] then op else logicalOp)
                      (expressions @ [exp]))
             else safeParse_loop sub rest [] (if logicalOp = [] then op else logicalOp) expressions))"
  by (simp add: safeParse_loop.simps encodeRune_ascii Let_def split: option.splits)

lemmas string_eval =
  isAscii_def isSpace_def TrimSpace_ascii TrimLeft_def TrimRight_def HasSuffix_def TrimSuffix_def
  Count_def hasSuffixComparisonOp_def hasSuffixLogicalOp_def listComparisonOperator_def
  listLogicalOperators_def coEqual_def coNotEqual_def coNotExists_def loAnd_def loOr_def

lemmas parser_eval =
  parse_def safeParse.simps safeParse_loop_ascii safeParse_loop.simps(1) maxDepth_def
  matchingParenthesisPos_def parseSimpleStatement_def parseSimpleStatement_loop_ascii
  parseSimpleStatement_loop_runes_Nil areCloudWatchExpressionsEquivalent_def

section \<open>Stripping the input keeps its parentheses\<close>

lemma decodeRune_width_pos: "s \<noteq> [] \<Longrightarrow> 0 < snd (decodeRune s)"
  by (cases s) (auto simp: Let_def split: list.splits)

lemma paren_low: "paren c \<Longrightarrow> (of_char c :: nat) < 0x80"
  by (auto simp: paren_def)

lemma inRange_high: "inRange lo hi c \<Longrightarrow> 0x80 \<le> lo \<Longrightarrow> (0x80 :: nat) \<le> of_char c"
  by (simp add: inRange_def)

lemma decodeRune_wide_high:
  assumes "1 < snd (decodeRune s)" "c \<in> set (take (snd (decodeRune s)) s)"
  shows "(0x80 :: nat) \<le> of_char c"
proof -
  obtain c0 s' where s: "s = c0 # s'" using assms(1) by (cases s) auto
  define b0 where "b0 = (of_char c0 :: nat)"
  have hi: "0xC2 \<le> b0" "b0 < 0xF5"
    using assms(1) unfolding s b0_def by (auto simp: Let_def split: if_splits)
  consider (two) "b0 < 0xE0" | (three) "0xE0 \<le> b0" "b0 < 0xF0" | (four) "0xF0 \<le> b0"
    by linarith
  then show ?thesis
  proof cases
    case two
    then have d: "decodeRune s = (case s' of
           c1 # _ \<Rightarrow>
             if inRange 0x80 0xBF c1 then ((b0 mod 32) * 64 + low6 c1, 2)
             else (RuneError, 1)
         | _ \<Rightarrow> (RuneError, 1))"
      using hi unfolding s b0_def by (simp add: Let_def)
    from assms(1) d obtain c1 s'' where s': "s' = c1 # s''" and r: "inRange 0x80 0xBF c1"
      by (cases s') (auto split: if_splits)
    with d have "snd (decodeRune s) = 2" by simp
    with assms(2) s s' have "c = c0 \<or> c = c1" by (auto simp: numeral_2_eq_2)
    then show ?thesis using hi(1) r b0_def by (auto simp: inRange_def)
  next
    case three
    then have d: "decodeRune s = (case s' of
           c1 # c2 # _ \<Rightarrow>
             if inRange (if b0 = 0xE0 then 0xA0 else 0x80) (if b0 = 0xED then 0x9F else 0xBF) c1
                \<and> inRange 0x80 0xBF c2
             then (((b0 mod 16) * 64 + low6 c1) * 64 + low6 c2, 3)
             else (RuneError, 1)
         | _ \<Rightarrow> (RuneError, 1))"
      using hi unfolding s b0_def by (simp add: Let_def)
    from assms(1) d obtain c1 c2 s'' where s': "s' = c1 # c2 # s''"
      and r: "inRange (if b0 = 0xE0 then 0xA0 else 0x80) (if b0 = 0xED then 0x9F else 0xBF) c1" "inRange 0x80 0xBF c2"
      by (cases s'; cases "tl s'") (auto split: if_splits)
    with d have "snd (decodeRune s) = 3" by simp
    with assms(2) s s' have "c = c0 \<or> c = c1 \<or> c = c2" by (auto simp: numeral_3_eq_3)
    then show ?thesis using hi(1) r b0_def by (auto simp: inRange_def split: if_splits)
  next
    case four
    then have d: "decodeRune s = (case s' of
           c1 # c2 # c3 # _ \<Rightarrow>
             if inRange (if b0 = 0xF0 then 0x90 else 0x80) (if b0 = 0xF4 then 0x8F else 0xBF) c1
                \<and> inRange 0x80 0xBF c2 \<and> inRange 0x80 0xBF c3
             then ((((b0 mod 8) * 64 + low6 c1) * 64 + low6 c2) * 64 + low6 c3, 4)
             else (RuneError, 1)
         | _ \<Rightarrow> (RuneError, 1))"
      using hi unfolding s b0_def by (simp add: Let_def)
    from assms(1) d obtain c1 c2 c3 s'' where s': "s' = c1 # c2 # c3 # s''"
      and r: "inRange (if b0 = 0xF0 then 0x90 else 0x80) (if b0 = 0xF4 then 0x8F else 0xBF) c1"
          "inRange 0x80 0xBF c2" "inRange 0x80 0xBF c3"
      by (cases s'; cases "tl s'"; cases "tl (tl s')") (auto split: if_splits)
    with d have "snd (decodeRune s) = 4" by simp
    with assms(2) s s' have "c = c0 \<or> c = c1 \<or> c = c2 \<or> c = c3"
      by (auto simp: eval_nat_numeral)
    then show ?thesis using hi(1) r b0_def by (auto simp: inRange_def split: if_splits)
  qed
qed

lemma decodeRune_wide_no_paren:
  assumes "1 < snd (decodeRune s)" "c \<in> set (take (snd (decodeRune s)) s)"
  shows "\<not> paren c"
  using decodeRune_wide_high[OF assms] paren_low[of c] by auto

lemma decodeRune_space_no_paren:
  assumes "s \<noteq> []" "isSpace (fst (decodeRune s))" "c \<in> set (take (snd (decodeRune s)) s)"
  shows "\<not> paren c"
proof (cases "1 < snd (decodeRune s)")
  case True
  then show ?thesis using assms(3) by (rule decodeRune_wide_no_paren)
next
  case False
  with decodeRune_width_pos[OF assms(1)] have w: "snd (decodeRune s) = 1" by simp
  from assms(1) obtain c0 s' where s: "s = c0 # s'" by (cases s) auto
  with assms(3) w have c: "c = c0" by simp
  show ?thesis
  proof
    assume p: "paren c"
    then have "(of_char c0 :: nat) < 0x80" using c paren_low by simp
    then have "fst (decodeRune s) = of_char c0" unfolding s by simp
    with assms(2) p c show False by (auto simp: isSpace_def paren_def)
  qed
qed

lemma filter_paren_trimLeftSpace: "filter paren (trimLeftSpace s) = filter paren s"
proof (induction s rule: trimLeftSpace.induct)
  case (1 s)
  show ?case
  proof (cases "s \<noteq> [] \<and> isSpace (fst (decodeRune s))")
    case True
    let ?w = "snd (decodeRune s)"
    have "filter paren (take ?w s) = []"
      using decodeRune_space_no_paren[of s] True by (auto simp: filter_empty_conv)
    then have "filter paren (drop ?w s) = filter paren s"
      by (metis append_Nil append_take_drop_id filter_append)
    moreover have "trimLeftSpace s = trimLeftSpace (drop ?w s)"
      by (subst trimLeftSpace.simps) (use True in simp)
    ultimately show ?thesis using "1.IH" True by simp
  next
    case False
    have "trimLeftSpace s = s"
      by (subst trimLeftSpace.simps) (use False in auto)
    then show ?thesis by simp
  qed
qed

lemma decodeLastRune_space_no_paren:
  assumes "s \<noteq> []" "isSpace (fst (decodeLastRune s))"
    and "c \<in> set (drop (length s - snd (decodeLastRune s)) s)"
  shows "\<not> paren c"
proof (cases "(of_char (last s) :: nat) < 0x80")
  case True
  then have d: "decodeLastRune s = (of_char (last s), 1)"
    using assms(1) by (simp add: decodeLastRune_def)
  have "drop (length s - 1) s = [last s]"
    using assms(1) by (metis append_butlast_last_id append_eq_conv_conj length_butlast)
  with assms(3) d have "c = last s" by simp
  then show ?thesis using assms(2) d by (auto simp: isSpace_def paren_def)
next
  case False
  show ?thesis
  proof (cases "find (\<lambda>k. k \<le> length s \<and> RuneStart (s ! (length s - k))) [2, 3, 4]")
    case None
    then have "decodeLastRune s = (RuneError, 1)"
      using assms(1) False by (simp add: decodeLastRune_def)
    with assms(2) show ?thesis by (simp add: isSpace_def RuneError_def)
  next
    case (Some k)
    define t where "t = drop (length s - k) s"
    have k: "2 \<le> k" using Some by (auto split: if_splits)
    show ?thesis
    proof (cases "snd (decodeRune t) = k")
      case True
      then have d: "decodeLastRune s = decodeRune t"
        using assms(1) False Some
        by (simp add: decodeLastRune_def t_def case_prod_beta prod_eq_iff)
      have "c \<in> set (take (snd (decodeRune t)) t)"
        using assms(3) d True t_def by simp
      moreover have "1 < snd (decodeRune t)" using True k by simp
      ultimately show ?thesis using decodeRune_wide_no_paren by blast
    next
      case False
      then have "decodeLastRune s = (RuneError, 1)"
        using assms(1) \<open>\<not> (of_char (last s) :: nat) < 0x80\<close> Some
        by (simp add: decodeLastRune_def t_def case_prod_beta)
      with assms(2) show ?thesis by (simp add: isSpace_def RuneError_def)
    qed
  qed
qed

lemma filter_paren_trimRightSpace: "filter paren (trimRightSpace s) = filter paren s"
proof (induction s rule: trimRightSpace.induct)
  case (1 s)
  show ?case
  proof (cases "s \<noteq> [] \<and> isSpace (fst (decodeLastRune s))")
    case True
    let ?n = "length s - snd (decodeLastRune s)"
    have "filter paren (drop ?n s) = []"
      using decodeLastRune_space_no_paren[of s] True by (auto simp: filter_empty_conv)
    then have "filter paren (take ?n s) = filter paren s"
      by (metis append_Nil2 append_take_drop_id filter_append)
    moreover have "trimRightSpace s = trimRightSpace (take ?n s)"
      by (subst trimRightSpace.simps) (use True in simp)
    ultimately show ?thesis using "1.IH" True by simp
  next
    case False
    have "trimRightSpace s = s"
      by (subst trimRightSpace.simps) (use False in auto)
    then show ?thesis by simp
  qed
qed

lemma filter_paren_TrimSpace: "filter paren (TrimSpace s) = filter paren s"
  by (simp add: TrimSpace_def filter_paren_trimLeftSpace filter_paren_trimRightSpace)

lemma filter_dropWhile_other: "(\<And>c. Q c \<Longrightarrow> \<not> P c) \<Longrightarrow> filter P (dropWhile Q s) = filter P s"
  by (induction s) auto

lemma filter_paren_stripped: "filter paren (stripped s) = filter paren s"
proof -
  have l: "filter paren (TrimLeft t ''{'') = filter paren t" for t
    unfolding TrimLeft_def by (rule filter_dropWhile_other) (auto simp: paren_def)
  have "filter paren (rev (TrimRight t ''}'')) = filter paren (rev t)" for t
    unfolding TrimRight_def rev_rev_ident by (rule filter_dropWhile_other) (auto simp: paren_def)
  then have r: "filter paren (TrimRight t ''}'') = filter paren t" for t
    by (metis rev_filter rev_rev_ident)
  show ?thesis by (simp add: stripped_def filter_paren_TrimSpace l r)
qed

lemma count_list_filter: "P c \<Longrightarrow> count_list (filter P s) c = count_list s c"
  by (induction s) auto

lemma Count_stripped: "paren c \<Longrightarrow> Count (stripped s) c = Count s c"
  unfolding Count_def
  by (metis count_list_filter filter_paren_stripped)

section \<open>The scan of a leaf\<close>

lemma parseSimpleStatement_loop_append:
  "parseSimpleStatement_loop us buf left operator foundOp = Inr (buf', left', operator', foundOp') \<Longrightarrow>
   parseSimpleStatement_loop (us @ ws) buf left operator foundOp =
     parseSimpleStatement_loop ws buf' left' operator' foundOp'"
proof (induction us arbitrary: buf left operator foundOp)
  case Nil
  then show ?case by simp
next
  case (Cons r us)
  then show ?case
    by (auto simp: Let_def split: if_splits option.splits)
qed

section \<open>The scan of a nesting level\<close>

lemma matchingParenthesisPos_loop_append:
  "matchingParenthesisPos_loop s k i = Some p \<Longrightarrow>
   matchingParenthesisPos_loop (s @ w) k i = Some p"
  by (induction s arbitrary: k i) (auto simp: Let_def split: if_splits)

lemma matchingParenthesisPos_loop_bound:
  "matchingParenthesisPos_loop s k i = Some p \<Longrightarrow> i \<le> p \<and> p < i + length s"
proof (induction s arbitrary: k i)
  case Nil
  then show ?case by simp
next
  case (Cons c s)
  then show ?case
    by (fastforce simp: Let_def split: if_splits)
qed

lemma matchingParenthesisPos_open:
  assumes "matchingParenthesisPos (CHR ''('' # rest) = Some pos"
  shows "matchingParenthesisPos_loop rest 1 1 = Some pos" and "1 \<le> pos" and "pos \<le> length rest"
proof -
  show m: "matchingParenthesisPos_loop rest 1 1 = Some pos"
    using assms by (simp add: matchingParenthesisPos_def)
  from matchingParenthesisPos_loop_bound[OF m] show "1 \<le> pos" and "pos \<le> length rest"
    by simp_all
qed

lemma matchingParenthesisPos_append:
  "matchingParenthesisPos s = Some pos \<Longrightarrow> matchingParenthesisPos (s @ w) = Some pos"
  unfolding matchingParenthesisPos_def by (rule matchingParenthesisPos_loop_append)

lemma safeParse_loop_append:
  "safeParse_loop sub u buf logicalOp expressions = Inr (buf', logicalOp', expressions') \<Longrightarrow>
   safeParse_loop sub (u @ w) buf logicalOp expressions =
     safeParse_loop sub w buf' logicalOp' expressions'"
proof (induction sub u buf logicalOp expressions rule: safeParse_loop.induct)
  case (1 sub buf logicalOp expressions)
  then show ?case by (simp add: safeParse_loop.simps)
next
  case (2 sub r rest buf logicalOp expressions)
  show ?case
  proof (cases "r = CHR ''(''")
    case True
    from "2.prems" True obtain pos where pos: "matchingParenthesisPos (r # rest) = Some pos"
      by (auto simp: safeParse_loop.simps split: option.splits)
    from "2.prems" True pos obtain exp where exp: "sub (take (pos - 1) rest) = Inr exp"
      by (auto simp: safeParse_loop.simps split: sum.splits)
    from "2.prems" True pos exp
    have run: "safeParse_loop sub (drop pos rest) buf logicalOp (expressions @ [exp]) =
         Inr (buf', logicalOp', expressions')"
      by (simp add: safeParse_loop.simps)
    have le: "pos \<le> length rest" using pos True matchingParenthesisPos_open(3) by blast
    have pos': "matchingParenthesisPos (r # rest @ w) = Some pos"
      using matchingParenthesisPos_append[OF pos, of w] by simp
    have "safeParse_loop sub ((r # rest) @ w) buf logicalOp expressions =
          safeParse_loop sub (drop pos rest @ w) buf logicalOp (expressions @ [exp])"
      using True pos' exp le by (simp add: safeParse_loop.simps)
    also have "\<dots> = safeParse_loop sub w buf' logicalOp' expressions'"
      using "2.IH"(1)[OF True pos exp run] .
    finally show ?thesis .
  next
    case False
    define tmpString where "tmpString = buf @ encodeRune (of_char r)"
    show ?thesis
    proof (cases "hasSuffixLogicalOp tmpString")
      case None
      with "2.prems" False have run: "safeParse_loop sub rest tmpString logicalOp expressions =
          Inr (buf', logicalOp', expressions')"
        by (simp add: safeParse_loop.simps tmpString_def)
      show ?thesis
        using "2.IH"(2)[OF False tmpString_def None run] False None
        by (simp add: safeParse_loop.simps tmpString_def)
    next
      case (Some op)
      define lop where "lop = (if logicalOp = [] then op else logicalOp)"
      define expStr where "expStr = TrimSpace (TrimSuffix tmpString op)"
      from "2.prems" False Some have eq: "lop = op"
        by (auto simp: safeParse_loop.simps tmpString_def lop_def Let_def split: if_splits)
      show ?thesis
      proof (cases "length expStr > 0")
        case True
        from "2.prems" False Some eq True obtain exp where exp: "parseSimpleStatement expStr = Inr exp"
          by (auto simp: safeParse_loop.simps tmpString_def lop_def expStr_def Let_def
              split: if_splits sum.splits)
        from "2.prems" False Some eq True exp
        have run: "safeParse_loop sub rest [] lop (expressions @ [exp]) =
            Inr (buf', logicalOp', expressions')"
          by (auto simp: safeParse_loop.simps tmpString_def lop_def expStr_def Let_def
              split: if_splits)
        have ne: "\<not> lop \<noteq> op" using eq by simp
        show ?thesis
          using "2.IH"(3)[OF False tmpString_def Some lop_def ne expStr_def True exp run]
            False Some eq True exp
          by (auto simp: safeParse_loop.simps tmpString_def lop_def expStr_def Let_def)
      next
        case F: False
        from "2.prems" False Some eq F
        have run: "safeParse_loop sub rest [] lop expressions = Inr (buf', logicalOp', expressions')"
          by (auto simp: safeParse_loop.simps tmpString_def lop_def expStr_def Let_def
              split: if_splits)
        have ne: "\<not> lop \<noteq> op" using eq by simp
        show ?thesis
          using "2.IH"(4)[OF False tmpString_def Some lop_def ne expStr_def F run]
            False Some eq F
          by (auto simp: safeParse_loop.simps tmpString_def lop_def expStr_def Let_def)
      qed
    qed
  qed
qed

lemma parse_stripped:
  "parse s = (if Count s CHR ''('' \<noteq> Count s CHR '')'' then Inl BrokenParenthesis
              else safeParse (stripped s) 0)"
  by (simp add: parse_def stripped_def)

section \<open>Inputs without parentheses and logical operators\<close>

lemma Contains_iff: "Contains s substr \<longleftrightarrow> (\<exists>u v. s = u @ substr @ v)"
proof (induction s)
  case Nil
  then show ?case by auto
next
  case (Cons c s)
  show ?case
  proof
    assume "Contains (c # s) substr"
    then consider "take (length substr) (c # s) = substr" | "Contains s substr" by auto
    then show "\<exists>u v. c # s = u @ substr @ v"
    proof cases
      case 1
      then have "c # s = [] @ substr @ drop (length substr) (c # s)"
        by (metis append_Nil append_take_drop_id)
      then show ?thesis by blast
    next
      case 2
      with Cons.IH obtain u v where "s = u @ substr @ v" by blast
      then have "c # s = (c # u) @ substr @ v" by simp
      then show ?thesis by blast
    qed
  next
    assume "\<exists>u v. c # s = u @ substr @ v"
    then obtain u v where uv: "c # s = u @ substr @ v" by blast
    show "Contains (c # s) substr"
    proof (cases u)
      case Nil
      with uv have "take (length substr) (c # s) = substr" by simp
      then show ?thesis by simp
    next
      case (Cons c' u')
      with uv have "s = u' @ substr @ v" by simp
      with Cons.IH show ?thesis by auto
    qed
  qed
qed

lemma HasSuffix_iff: "HasSuffix s suffix \<longleftrightarrow> (\<exists>q. s = q @ suffix)"
proof
  assume "HasSuffix s suffix"
  then have "s = take (length s - length suffix) s @ suffix"
    unfolding HasSuffix_def by (metis append_take_drop_id)
  then show "\<exists>q. s = q @ suffix" by blast
next
  assume "\<exists>q. s = q @ suffix"
  then show "HasSuffix s suffix" by (auto simp: HasSuffix_def)
qed

lemma hasSuffixLogicalOp_None_iff:
  "hasSuffixLogicalOp t = None \<longleftrightarrow> \<not> HasSuffix t ''&&'' \<and> \<not> HasSuffix t ''||''"
  by (simp add: hasSuffixLogicalOp_def listLogicalOperators_def loAnd_def loOr_def)

lemma no_logical_suffix:
  assumes "\<not> Contains x ''&&''" "\<not> Contains x ''||''"
  shows "hasSuffixLogicalOp (take n x) = None"
proof -
  have "\<not> HasSuffix (take n x) op" if "\<not> Contains x op" for op
  proof
    assume "HasSuffix (take n x) op"
    then obtain q where "take n x = q @ op" unfolding HasSuffix_iff by blast
    then have "x = q @ op @ drop n x" by (metis append.assoc append_take_drop_id)
    with that show False unfolding Contains_iff by blast
  qed
  with assms show ?thesis by (simp add: hasSuffixLogicalOp_None_iff)
qed

lemma safeParse_loop_plain:
  assumes "list_all isAscii x" "CHR ''('' \<notin> set x"
    and "\<And>n. 0 < n \<Longrightarrow> n \<le> length x \<Longrightarrow> hasSuffixLogicalOp (buf @ take n x) = None"
  shows "safeParse_loop sub x buf logicalOp expressions = Inr (buf @ x, logicalOp, expressions)"
  using assms
proof (induction x arbitrary: buf)
  case Nil
  then show ?case by (simp add: safeParse_loop.simps)
next
  case (Cons c x)
  have n: "hasSuffixLogicalOp (buf @ [c]) = None" using Cons.prems(3)[of 1] by simp
  have "safeParse_loop sub x (buf @ [c]) logicalOp expressions =
        Inr ((buf @ [c]) @ x, logicalOp, expressions)"
  proof (rule Cons.IH)
    show "list_all isAscii x" using Cons.prems(1) by simp
    show "CHR ''('' \<notin> set x" using Cons.prems(2) by simp
    fix n assume "0 < n" "n \<le> length x"
    then show "hasSuffixLogicalOp ((buf @ [c]) @ take n x) = None"
      using Cons.prems(3)[of "Suc n"] by simp
  qed
  moreover have "c \<noteq> CHR ''(''" "isAscii c" using Cons.prems(1,2) by auto
  ultimately show ?case using n by (simp add: safeParse_loop_ascii)
qed

lemma parseSimpleStatement_old_loop_eq:
  "parseSimpleStatement_old_loop rs buf left operator foundOp =
   parseSimpleStatement_loop rs buf left operator foundOp"
proof (induction rs arbitrary: buf left operator foundOp)
  case Nil
  show ?case by simp
next
  case (Cons r rs)
  show ?case
    unfolding parseSimpleStatement_old_loop.simps parseSimpleStatement_loop.simps Cons.IH ..
qed

lemma parseSimpleStatement_old_eq: "parseSimpleStatement_old s = parseSimpleStatement s"
  by (simp add: parseSimpleStatement_old_def parseSimpleStatement_def parseSimpleStatement_old_loop_eq)

lemma safeParse_old_loop_plain:
  assumes "list_all isAscii x" "CHR ''('' \<notin> set x" "CHR '')'' \<notin> set x"
    and "\<And>n. n < length x \<Longrightarrow> hasSuffixLogicalOp (buf @ take n x) = None"
  shows "safeParse_old_loop sub (map of_char x) buf 0 logicalOp expressions False =
         Inr (buf @ x, logicalOp, expressions)"
  using assms
proof (induction x arbitrary: buf)
  case Nil
  then show ?case by simp
next
  case (Cons c x)
  have n: "hasSuffixLogicalOp buf = None" using Cons.prems(4)[of 0] by simp
  have o: "(of_char c :: nat) \<noteq> of_char CHR ''(''" "(of_char c :: nat) \<noteq> of_char CHR '')''"
    using Cons.prems(2,3) unfolding of_char_eq_iff by auto
  have e: "encodeRune (of_char c) = [c]" using Cons.prems(1) by (simp add: encodeRune_ascii)
  have "safeParse_old_loop sub (map of_char x) (buf @ [c]) 0 logicalOp expressions False =
        Inr ((buf @ [c]) @ x, logicalOp, expressions)"
  proof (rule Cons.IH)
    show "list_all isAscii x" using Cons.prems(1) by simp
    show "CHR ''('' \<notin> set x" using Cons.prems(2) by simp
    show "CHR '')'' \<notin> set x" using Cons.prems(3) by simp
    fix n assume "n < length x"
    then show "hasSuffixLogicalOp ((buf @ [c]) @ take n x) = None"
      using Cons.prems(4)[of "Suc n"] by simp
  qed
  then show ?case
    unfolding list.map safeParse_old_loop.simps using o n e by simp
qed

lemma ascii_trimmed:
  assumes "list_all isAscii s"
  shows "TrimSpace (TrimSpace s) = TrimSpace s"
proof -
  let ?sp = "\<lambda>c. isSpace (of_char c :: nat)"
  define t where "t = rev (dropWhile ?sp (rev (dropWhile ?sp s)))"
  have ts: "TrimSpace s = t" using assms by (simp add: TrimSpace_ascii t_def)
  have at: "list_all isAscii t"
    unfolding t_def using assms by (simp add: list_all_dropWhile)
  have last: "t \<noteq> [] \<Longrightarrow> \<not> ?sp (last t)"
    unfolding t_def by (metis hd_dropWhile last_rev rev_is_Nil_conv rev_rev_ident)
  have hd: "t \<noteq> [] \<Longrightarrow> \<not> ?sp (hd t)"
  proof -
    assume ne: "t \<noteq> []"
    define d where "d = dropWhile ?sp s"
    have "t = rev (dropWhile ?sp (rev d))" by (simp add: t_def d_def)
    then have "d = t @ rev (takeWhile ?sp (rev d))"
      by (metis rev_append rev_rev_ident takeWhile_dropWhile_id)
    with ne have "hd t = hd d" by (metis hd_append2)
    moreover have "d \<noteq> []" using \<open>d = t @ _\<close> ne by auto
    ultimately show "\<not> ?sp (hd t)" unfolding d_def by (metis hd_dropWhile)
  qed
  have 1: "dropWhile ?sp t = t" using hd by (cases t) auto
  have 2: "dropWhile ?sp (rev t) = rev t"
    using last by (cases "rev t") (auto simp: last_rev)
  have "TrimSpace t = t" using at by (simp add: TrimSpace_ascii 1 2)
  then show ?thesis using ts by simp
qed

lemma ascii_stripped:
  assumes "list_all isAscii s"
  shows "list_all isAscii (stripped s)" and "TrimSpace (stripped s) = stripped s"
    and "\<exists>u v. s = u @ stripped s @ v"
proof -
  let ?sp = "\<lambda>c. isSpace (of_char c :: nat)"
  have dl: "\<exists>u. t = u @ dropWhile P t" for P and t :: string
    by (metis takeWhile_dropWhile_id)
  have dr: "\<exists>v. t = rev (dropWhile P (rev t)) @ v" for P and t :: string
    by (metis rev_append rev_rev_ident takeWhile_dropWhile_id)
  have tsA: "list_all isAscii (TrimSpace t)" if "list_all isAscii t" for t
    using that by (simp add: TrimSpace_ascii list_all_dropWhile)
  have tsI: "\<exists>u v. t = u @ TrimSpace t @ v" if "list_all isAscii t" for t
  proof -
    obtain u where u: "t = u @ dropWhile ?sp t" using dl by blast
    obtain v where v: "dropWhile ?sp t = rev (dropWhile ?sp (rev (dropWhile ?sp t))) @ v"
      using dr by blast
    have "t = u @ TrimSpace t @ v"
      using u v that by (simp add: TrimSpace_ascii)
    then show ?thesis by blast
  qed
  define a where "a = TrimSpace s"
  define b where "b = TrimLeft a ''{''"
  define c where "c = TrimRight b ''}''"
  have st: "stripped s = TrimSpace c" by (simp add: stripped_def a_def b_def c_def)
  have aA: "list_all isAscii a" unfolding a_def using assms by (rule tsA)
  have bA: "list_all isAscii b" unfolding b_def TrimLeft_def using aA by (rule list_all_dropWhile)
  have cA: "list_all isAscii c"
    unfolding c_def TrimRight_def using bA by (simp add: list_all_dropWhile)
  show "list_all isAscii (stripped s)" unfolding st using cA by (rule tsA)
  show "TrimSpace (stripped s) = stripped s" unfolding st using cA by (rule ascii_trimmed)
  obtain u1 v1 where 1: "s = u1 @ a @ v1" using tsI[OF assms] a_def by blast
  obtain u2 where 2: "a = u2 @ b" unfolding b_def TrimLeft_def using dl by blast
  obtain v3 where 3: "b = c @ v3" unfolding c_def TrimRight_def using dr by blast
  obtain u4 v4 where 4: "c = u4 @ stripped s @ v4" using tsI[OF cA] st by metis
  have "s = (u1 @ u2 @ u4) @ stripped s @ (v4 @ v3 @ v1)"
    using 1 2 3 4 by simp
  then show "\<exists>u v. s = u @ stripped s @ v" by blast
qed

lemma Contains_infix: "Contains x op \<Longrightarrow> s = u @ x @ v \<Longrightarrow> Contains s op"
  unfolding Contains_iff by (metis append.assoc)

lemma parseSimpleStatement_result:
  "parseSimpleStatement s = Inr t \<Longrightarrow> \<exists>l r op. t = simpleExpression l r op"
  by (auto simp: parseSimpleStatement_def split: sum.splits if_splits)

lemma safeParse_plain:
  assumes "list_all isAscii x" "CHR ''('' \<notin> set x" "\<not> Contains x ''&&''" "\<not> Contains x ''||''"
    and "TrimSpace x = x" "x \<noteq> []"
  shows "safeParse x 0 = parseSimpleStatement x"
proof -
  have "safeParse_loop sub x [] [] [] = Inr ([] @ x, [], [])" for sub
    using assms(1,2) no_logical_suffix[OF assms(3,4)] by (intro safeParse_loop_plain) simp_all
  then show ?thesis
    using assms(5,6) parseSimpleStatement_result[of x]
    by (subst safeParse.simps) (auto simp: maxDepth_def split: sum.splits)
qed

lemma safeParse_old_plain:
  assumes "list_all isAscii x" "CHR ''('' \<notin> set x" "CHR '')'' \<notin> set x"
    and "\<not> Contains x ''&&''" "\<not> Contains x ''||''"
  shows "safeParse_old x 0 = parseSimpleStatement x"
proof -
  have "safeParse_old_loop sub (runes x) [] 0 [] [] False = Inr ([] @ x, [], [])" for sub
    unfolding runes_ascii[OF assms(1)]
    using assms(1,2,3) no_logical_suffix[OF assms(4,5)] by (intro safeParse_old_loop_plain) simp_all
  then show ?thesis
    by (subst safeParse_old.simps) (simp add: parseSimpleStatement_old_eq)
qed

section \<open>Operator tokens in a leaf\<close>

lemma decodeRune_append_ascii:
  assumes "x \<noteq> []" "isAscii c"
  shows "decodeRune (x @ c # y) = decodeRune x" and "snd (decodeRune x) \<le> length x"
proof -
  obtain c0 x' where x: "x = c0 # x'" using assms(1) by (cases x) auto
  define b0 where "b0 = (of_char c0 :: nat)"
  have nc: "\<not> inRange lo hi c" if "0x80 \<le> lo" for lo hi
    using assms(2) that by (simp add: inRange_def isAscii_def)
  consider (one) "b0 < 0xC2 \<or> 0xF5 \<le> b0" | (two) "0xC2 \<le> b0" "b0 < 0xE0"
    | (three) "0xE0 \<le> b0" "b0 < 0xF0" | (four) "0xF0 \<le> b0" "b0 < 0xF5"
    by linarith
  then have "decodeRune (x @ c # y) = decodeRune x \<and> snd (decodeRune x) \<le> length x"
  proof cases
    case one
    then show ?thesis unfolding x b0_def by (auto simp: Let_def)
  next
    case two
    then have d: "decodeRune (c0 # s) = (case s of
           c1 # _ \<Rightarrow>
             if inRange 0x80 0xBF c1 then ((b0 mod 32) * 64 + low6 c1, 2)
             else (RuneError, 1)
         | _ \<Rightarrow> (RuneError, 1))" for s
      unfolding b0_def by (simp add: Let_def)
    show ?thesis
      unfolding x append_Cons d using nc[of "0x80" "0xBF"]
      by (cases x') auto
  next
    case three
    then have d: "decodeRune (c0 # s) = (case s of
           c1 # c2 # _ \<Rightarrow>
             if inRange (if b0 = 0xE0 then 0xA0 else 0x80) (if b0 = 0xED then 0x9F else 0xBF) c1
                \<and> inRange 0x80 0xBF c2
             then (((b0 mod 16) * 64 + low6 c1) * 64 + low6 c2, 3)
             else (RuneError, 1)
         | _ \<Rightarrow> (RuneError, 1))" for s
      unfolding b0_def by (simp add: Let_def)
    have n1: "\<not> inRange (if b0 = 0xE0 then 0xA0 else 0x80) (if b0 = 0xED then 0x9F else 0xBF) c"
      by (rule nc) simp
    show ?thesis
    proof (cases x')
      case Nil
      then show ?thesis unfolding x append_Cons d using n1 by (simp split: list.splits)
    next
      case (Cons c1 x'')
      then show ?thesis unfolding x append_Cons d using nc[of "0x80" "0xBF"]
        by (cases x'') auto
    qed
  next
    case four
    then have d: "decodeRune (c0 # s) = (case s of
           c1 # c2 # c3 # _ \<Rightarrow>
             if inRange (if b0 = 0xF0 then 0x90 else 0x80) (if b0 = 0xF4 then 0x8F else 0xBF) c1
                \<and> inRange 0x80 0xBF c2 \<and> inRange 0x80 0xBF c3
             then ((((b0 mod 8) * 64 + low6 c1) * 64 + low6 c2) * 64 + low6 c3, 4)
             else (RuneError, 1)
         | _ \<Rightarrow> (RuneError, 1))" for s
      unfolding b0_def by (simp add: Let_def)
    have n1: "\<not> inRange (if b0 = 0xF0 then 0x90 else 0x80) (if b0 = 0xF4 then 0x8F else 0xBF) c"
      by (rule nc) simp
    show ?thesis
    proof (cases x')
      case Nil
      then show ?thesis unfolding x append_Cons d using n1 by (simp split: list.splits)
    next
      case c1: (Cons c1 x'')
      show ?thesis
      proof (cases x'')
        case Nil
        then show ?thesis unfolding x c1 append_Cons d using nc[of "0x80" "0xBF"]
          by (simp split: list.splits)
      next
        case (Cons c2 x''')
        then show ?thesis unfolding x c1 append_Cons d using nc[of "0x80" "0xBF"]
          by (cases x''') auto
      qed
    qed
  qed
  then show "decodeRune (x @ c # y) = decodeRune x" and "snd (decodeRune x) \<le> length x"
    by simp_all
qed

lemma runes_append_ascii_char:
  "isAscii c \<Longrightarrow> runes (x @ c # y) = runes x @ of_char c # runes y"
proof (induction x rule: length_induct)
  case (1 x)
  show ?case
  proof (cases "x = []")
    case True
    then show ?thesis using "1.prems" by (simp add: runes_Nil runes_ascii_Cons)
  next
    case False
    define w where "w = snd (decodeRune x)"
    have d: "decodeRune (x @ c # y) = decodeRune x" and wl: "w \<le> length x"
      using decodeRune_append_ascii[OF False "1.prems"] w_def by simp_all
    have wp: "0 < w" using decodeRune_width_pos[OF False] w_def by simp
    have "length (drop w x) < length x" using wp False by simp
    with "1.IH" "1.prems"
    have IH: "runes (drop w x @ c # y) = runes (drop w x) @ of_char c # runes y" by blast
    have "runes (x @ c # y) = fst (decodeRune x) # runes (drop w (x @ c # y))"
      by (subst runes.simps) (simp add: d w_def)
    also have "drop w (x @ c # y) = drop w x @ c # y" using wl by simp
    also have "fst (decodeRune x) # runes (drop w x @ c # y) =
        (fst (decodeRune x) # runes (drop w x)) @ of_char c # runes y"
      using IH by simp
    also have "fst (decodeRune x) # runes (drop w x) = runes x"
      using False by (subst (2) runes.simps) (simp add: w_def)
    finally show ?thesis .
  qed
qed

lemma runes_ascii_prefix:
  "list_all isAscii t \<Longrightarrow> runes (t @ y) = map of_char t @ runes y"
  by (induction t) (simp_all add: runes_ascii_Cons)

lemma runes_append_ascii:
  assumes "t \<noteq> []" "list_all isAscii t"
  shows "runes (x @ t @ y) = runes x @ map of_char t @ runes y"
proof -
  obtain c t' where t: "t = c # t'" using assms(1) by (cases t) auto
  with assms(2) have c: "isAscii c" and t': "list_all isAscii t'" by simp_all
  show ?thesis
    unfolding t using runes_append_ascii_char[OF c, of x "t' @ y"] runes_ascii_prefix[OF t', of y]
    by simp
qed

lemma parseSimpleStatement_loop_error:
  "parseSimpleStatement_loop rs buf left operator foundOp = Inl err \<Longrightarrow>
   err = MultipleComparisonOperators"
  by (induction rs arbitrary: buf left operator foundOp)
     (auto simp: Let_def split: if_splits option.splits)

lemma parseSimpleStatement_loop_append_error:
  "parseSimpleStatement_loop us buf left operator foundOp = Inl err \<Longrightarrow>
   parseSimpleStatement_loop (us @ ws) buf left operator foundOp = Inl err"
proof (induction us arbitrary: buf left operator foundOp)
  case Nil
  then show ?case by simp
next
  case (Cons r us)
  then show ?case
    by (auto simp: Let_def split: if_splits option.splits)
qed

lemma parseSimpleStatement_loop_flag_kept:
  "parseSimpleStatement_loop us buf left operator True = Inr (buf', left', operator', foundOp') \<Longrightarrow>
   foundOp'"
proof (induction us arbitrary: buf left operator)
  case Nil
  then show ?case by simp
next
  case (Cons r us)
  then show ?case
    by (auto simp: Let_def split: if_splits option.splits)
qed

lemma append_eq_append_same_length:
  "length x = length x' \<Longrightarrow> (b @ x = q @ p @ x') = (b = q @ p \<and> x = x')"
  using append_eq_append_conv[of b "q @ p" x x'] by simp

lemma HasSuffix_append:
  "HasSuffix (b @ x) op \<longleftrightarrow>
     (if length op \<le> length x then HasSuffix x op
      else HasSuffix b (take (length op - length x) op) \<and> drop (length op - length x) op = x)"
proof (cases "length op \<le> length x")
  case True
  then show ?thesis by (simp add: HasSuffix_def)
next
  case False
  define n where "n = length op - length x"
  have op: "op = take n op @ drop n op" by simp
  have ln: "length (drop n op) = length x" using False by (simp add: n_def)
  have e: "(b @ x = q @ take n op @ drop n op) \<longleftrightarrow> (b = q @ take n op \<and> x = drop n op)" for q
    by (rule append_eq_append_same_length) (use ln in simp)
  have "HasSuffix (b @ x) op \<longleftrightarrow> (\<exists>q. b @ x = q @ take n op @ drop n op)"
    unfolding HasSuffix_iff by simp
  also have "\<dots> \<longleftrightarrow> (\<exists>q. b = q @ take n op) \<and> x = drop n op"
    unfolding e by blast
  also have "\<dots> \<longleftrightarrow> HasSuffix b (take n op) \<and> drop n op = x"
    unfolding HasSuffix_iff by blast
  finally show ?thesis using False by (simp add: n_def)
qed

lemma hasSuffixComparisonOp_other:
  "c \<noteq> CHR ''='' \<Longrightarrow> c \<noteq> CHR ''S'' \<Longrightarrow> hasSuffixComparisonOp (b @ [c]) = None"
  by (auto simp: hasSuffixComparisonOp_def listComparisonOperator_def coEqual_def coNotEqual_def
      coNotExists_def HasSuffix_append HasSuffix_def)

lemma hasSuffixComparisonOp_equals: "hasSuffixComparisonOp (b @ ''='') \<noteq> None"
  by (simp add: hasSuffixComparisonOp_def listComparisonOperator_def coEqual_def coNotEqual_def
      coNotExists_def HasSuffix_append HasSuffix_def)

text \<open>One step of the scan of a leaf at an ASCII character that is written.\<close>

lemma parseSimpleStatement_loop_write:
  assumes "isAscii c" "buf \<noteq> [] \<or> (c \<noteq> CHR '' '' \<and> c \<noteq> CHR ''('')"
  shows "parseSimpleStatement_loop (of_char c # rs) buf left operator foundOp =
     (case hasSuffixComparisonOp (buf @ [c]) of
        Some op \<Rightarrow>
          if foundOp then Inl MultipleComparisonOperators
          else parseSimpleStatement_loop rs [] (TrimSpace (TrimSuffix (buf @ [c]) op)) op True
      | None \<Rightarrow> parseSimpleStatement_loop rs (buf @ [c]) left operator foundOp)"
  using assms unfolding parseSimpleStatement_loop.simps rune_is_space rune_is_open
    encodeRune_ascii[OF assms(1)] Let_def by auto

text \<open>
  A match: after the characters of \<^verbatim>\<open>=\<close> or of \<^verbatim>\<open>NOT EXISTS\<close> the scan has failed, if
  an operator was recorded before, or has recorded one and emptied the buffer.
\<close>

lemma match_equals:
  "\<exists>left' op'. parseSimpleStatement_loop (map of_char ''='' @ ws) buf left operator foundOp =
     (if foundOp then Inl MultipleComparisonOperators
      else parseSimpleStatement_loop ws [] left' op' True)"
proof -
  obtain op where op: "hasSuffixComparisonOp (buf @ ''='') = Some op"
    using hasSuffixComparisonOp_equals[of buf] by auto
  have "parseSimpleStatement_loop (of_char CHR ''='' # ws) buf left operator foundOp =
     (if foundOp then Inl MultipleComparisonOperators
      else parseSimpleStatement_loop ws [] (TrimSpace (TrimSuffix (buf @ ''='') op)) op True)"
    by (subst parseSimpleStatement_loop_write) (simp_all add: isAscii_def op)
  then show ?thesis by auto
qed

text \<open>ASCII characters that are written to the buffer without a match.\<close>

lemma parseSimpleStatement_loop_quiet:
  assumes "list_all isAscii t"
    and "buf \<noteq> [] \<or> t = [] \<or> (hd t \<noteq> CHR '' '' \<and> hd t \<noteq> CHR ''('')"
    and "\<And>n. 0 < n \<Longrightarrow> n \<le> length t \<Longrightarrow> hasSuffixComparisonOp (buf @ take n t) = None"
  shows "parseSimpleStatement_loop (map of_char t @ ws) buf left operator foundOp =
         parseSimpleStatement_loop ws (buf @ t) left operator foundOp"
  using assms
proof (induction t arbitrary: buf)
  case Nil
  then show ?case by simp
next
  case (Cons c t)
  have c: "isAscii c" and t: "list_all isAscii t" using Cons.prems(1) by simp_all
  have w: "buf \<noteq> [] \<or> (c \<noteq> CHR '' '' \<and> c \<noteq> CHR ''('')" using Cons.prems(2) by simp
  have n: "hasSuffixComparisonOp (buf @ [c]) = None" using Cons.prems(3)[of 1] by simp
  have "parseSimpleStatement_loop (map of_char t @ ws) (buf @ [c]) left operator foundOp =
        parseSimpleStatement_loop ws ((buf @ [c]) @ t) left operator foundOp"
  proof (rule Cons.IH[OF t])
    show "buf @ [c] \<noteq> [] \<or> t = [] \<or> (hd t \<noteq> CHR '' '' \<and> hd t \<noteq> CHR ''('')" by simp
    fix n assume "0 < n" "n \<le> length t"
    then show "hasSuffixComparisonOp ((buf @ [c]) @ take n t) = None"
      using Cons.prems(3)[of "Suc n"] by simp
  qed
  then show ?case
    unfolding list.map append_Cons parseSimpleStatement_loop_write[OF c w] n by simp
qed

lemma not_exists_prefix_quiet:
  assumes "0 < n" "n \<le> 9"
  shows "hasSuffixComparisonOp (buf @ take n ''NOT EXIST'') = None"
proof -
  from assms have "n \<in> {1, 2, 3, 4, 5, 6, 7, 8, 9}" by auto
  then show ?thesis
    by (elim insertE emptyE)
       (simp_all add: hasSuffixComparisonOp_def listComparisonOperator_def coEqual_def
          coNotEqual_def coNotExists_def HasSuffix_append HasSuffix_def)
qed

lemma hasSuffixComparisonOp_not_exists:
  "hasSuffixComparisonOp (buf @ ''NOT EXISTS'') = Some ''NOT EXISTS''"
  by (simp add: hasSuffixComparisonOp_def listComparisonOperator_def coEqual_def
      coNotEqual_def coNotExists_def HasSuffix_append HasSuffix_def)

lemma match_not_exists:
  "\<exists>left' op'. parseSimpleStatement_loop (map of_char ''NOT EXISTS'' @ ws) buf left operator foundOp =
     (if foundOp then Inl MultipleComparisonOperators
      else parseSimpleStatement_loop ws [] left' op' True)"
proof -
  have split: "map of_char ''NOT EXISTS'' @ ws = map of_char ''NOT EXIST'' @ (of_char CHR ''S'' # ws)"
    by simp
  have q: "parseSimpleStatement_loop (map of_char ''NOT EXIST'' @ (of_char CHR ''S'' # ws)) buf left
             operator foundOp =
           parseSimpleStatement_loop (of_char CHR ''S'' # ws) (buf @ ''NOT EXIST'') left operator foundOp"
    by (rule parseSimpleStatement_loop_quiet)
       (simp_all add: isAscii_def not_exists_prefix_quiet)
  have "parseSimpleStatement_loop (of_char CHR ''S'' # ws) (buf @ ''NOT EXIST'') left operator foundOp =
     (if foundOp then Inl MultipleComparisonOperators
      else parseSimpleStatement_loop ws []
             (TrimSpace (TrimSuffix (buf @ ''NOT EXISTS'') ''NOT EXISTS'')) ''NOT EXISTS'' True)"
    by (subst parseSimpleStatement_loop_write)
       (simp_all add: isAscii_def hasSuffixComparisonOp_not_exists)
  then show ?thesis unfolding split q by auto
qed

lemma match_token:
  assumes "tok = ''='' \<or> tok = ''NOT EXISTS''"
  shows "\<exists>left' op'. parseSimpleStatement_loop (map of_char tok @ ws) buf left operator foundOp =
     (if foundOp then Inl MultipleComparisonOperators
      else parseSimpleStatement_loop ws [] left' op' True)"
  using assms match_equals[of ws buf left operator foundOp]
    match_not_exists[of ws buf left operator foundOp] by blast

lemma two_tokens:
  assumes t1: "tok1 = ''='' \<or> tok1 = ''NOT EXISTS''" and t2: "tok2 = ''='' \<or> tok2 = ''NOT EXISTS''"
  shows "parseSimpleStatement (x @ tok1 @ y @ tok2 @ z) = Inl MultipleComparisonOperators"
proof -
  have a1: "tok1 \<noteq> []" "list_all isAscii tok1" and a2: "tok2 \<noteq> []" "list_all isAscii tok2"
    using t1 t2 by (auto simp: isAscii_def)
  have r: "runes (x @ tok1 @ y @ tok2 @ z) =
      runes x @ map of_char tok1 @ runes y @ map of_char tok2 @ runes z"
    using runes_append_ascii[OF a1, of x "y @ tok2 @ z"] runes_append_ascii[OF a2, of y z] by simp
  define R2 where "R2 = map of_char tok2 @ runes z"
  define R1 where "R1 = map of_char tok1 @ runes y @ R2"
  have second: "parseSimpleStatement_loop (runes y @ R2) b l opr True = Inl MultipleComparisonOperators"
    for b l opr
  proof (cases "parseSimpleStatement_loop (runes y) b l opr True")
    case (Inl err)
    then show ?thesis
      using parseSimpleStatement_loop_append_error[OF Inl] parseSimpleStatement_loop_error[OF Inl]
      by simp
  next
    case (Inr st)
    obtain b' l' o' f' where st: "st = (b', l', o', f')" by (cases st) auto
    have f': "f'" using parseSimpleStatement_loop_flag_kept Inr st by blast
    have "parseSimpleStatement_loop (runes y @ R2) b l opr True =
          parseSimpleStatement_loop R2 b' l' o' f'"
      using parseSimpleStatement_loop_append Inr st by blast
    then show ?thesis
      using match_token[OF t2, of "runes z" b' l' o' f'] f' unfolding R2_def by auto
  qed
  have first: "parseSimpleStatement_loop R1 b l opr f = Inl MultipleComparisonOperators" for b l opr f
    using match_token[OF t1, of "runes y @ R2" b l opr f] second unfolding R1_def by auto
  have "parseSimpleStatement_loop (runes x @ R1) [] [] [] False = Inl MultipleComparisonOperators"
  proof (cases "parseSimpleStatement_loop (runes x) [] [] [] False")
    case (Inl err)
    then show ?thesis
      using parseSimpleStatement_loop_append_error[OF Inl] parseSimpleStatement_loop_error[OF Inl]
      by simp
  next
    case (Inr st)
    obtain b' l' o' f' where st: "st = (b', l', o', f')" by (cases st) auto
    have "parseSimpleStatement_loop (runes x @ R1) [] [] [] False =
          parseSimpleStatement_loop R1 b' l' o' f'"
      using parseSimpleStatement_loop_append Inr st by blast
    then show ?thesis using first by simp
  qed
  then show ?thesis
    unfolding parseSimpleStatement_def r R1_def R2_def by simp
qed

lemma comparison_operator_token:
  assumes "op \<in> set listComparisonOperator"
  shows "\<exists>pre tok. op = pre @ tok \<and> (tok = ''='' \<or> tok = ''NOT EXISTS'')"
proof -
  from assms consider "op = ''NOT EXISTS''" | "op = ''!=''" | "op = ''=''"
    by (auto simp: listComparisonOperator_def coEqual_def coNotEqual_def coNotExists_def)
  then show ?thesis
  proof cases
    case 1
    then have "op = [] @ ''NOT EXISTS''" by simp
    then show ?thesis by blast
  next
    case 2
    then have "op = ''!'' @ ''=''" by simp
    then show ?thesis by blast
  next
    case 3
    then have "op = [] @ ''=''" by simp
    then show ?thesis by blast
  qed
qed

lemma two_operators:
  assumes "op1 \<in> set listComparisonOperator" "op2 \<in> set listComparisonOperator"
  shows "parseSimpleStatement (a @ op1 @ b @ op2 @ c) = Inl MultipleComparisonOperators"
proof -
  from comparison_operator_token[OF assms(1)] obtain p1 t1
    where 1: "op1 = p1 @ t1" "t1 = ''='' \<or> t1 = ''NOT EXISTS''" by blast
  from comparison_operator_token[OF assms(2)] obtain p2 t2
    where 2: "op2 = p2 @ t2" "t2 = ''='' \<or> t2 = ''NOT EXISTS''" by blast
  show ?thesis
    unfolding 1(1) 2(1) using two_tokens[OF 1(2) 2(2), of "a @ p1" "b @ p2" c] by simp
qed

section \<open>Operands joined by both logical operators\<close>







lemma sideText_ascii: "sideText x \<Longrightarrow> list_all isAscii x"
  by (simp add: sideText_def list_all_iff)

lemma comparisonOperator_chars:
  "op \<in> set listComparisonOperator \<Longrightarrow>
   op \<noteq> [] \<and> list_all isAscii op \<and> freeText op \<and> CHR '')'' \<notin> set op
   \<and> \<not> isSpace (of_char (hd op)) \<and> \<not> isSpace (of_char (last op))"
  by (auto simp: listComparisonOperator_def coEqual_def coNotEqual_def coNotExists_def
      freeText_def isAscii_def isSpace_def)


subsection \<open>A comparison is a leaf that parses\<close>








lemma comparison_ascii: "comparison x \<Longrightarrow> list_all isAscii x"
  by (induction rule: comparison.induct)
     (simp add: sideText_ascii comparisonOperator_chars)



subsection \<open>The scan of text, operators and operands\<close>
















section \<open>Equivalence of comparisons and groups\<close>

text \<open>
  C2.  Two comparisons are equivalent exactly when their operators are identical
  and their operands agree, either in the same order or swapped; a comparison
  with its operands swapped is always equivalent to the original one.
\<close>

theorem simpleExpression_isEquivalent_iff:
  "(isEquivalent (simpleExpression l r opr) (simpleExpression l' r' opr') \<longleftrightarrow>
      opr' = opr \<and> ((l' = l \<and> r' = r) \<or> (l' = r \<and> r' = l)))
   \<and> isEquivalent (simpleExpression L R cop) (simpleExpression R L cop)"
  by auto

text \<open>
  C1.  A group is equivalent to another expression exactly when that expression
  is a group with the same logical operator and the same number of children, and
  the children of the two groups can be paired one to one into equivalent pairs.
  In particular the result is false for a comparison, for a different operator and
  for a different number of children, and the greedy search never misses a pairing.
\<close>

theorem complexExpression_isEquivalent_iff:
  "isEquivalent (complexExpression opr es) b \<longleftrightarrow>
     (\<exists>opr' es'. b = complexExpression opr' es' \<and> opr' = opr \<and> length es' = length es
        \<and> perfectPairing es es')"
proof (cases b)
  case (simpleExpression l r p)
  then show ?thesis by simp
next
  case (complexExpression opr' es')
  have "isEquivalent (complexExpression opr es) (complexExpression opr' es') \<longleftrightarrow>
          opr' = opr \<and> perfectPairing es es'"
    unfolding perfectPairing_def by (rule group_char[OF good_UNIV]) simp_all
  moreover have "perfectPairing es es' \<Longrightarrow> length es' = length es"
    unfolding perfectPairing_def by (metis list_all2_lengthD mset_eq_length)
  ultimately show ?thesis using complexExpression by auto
qed

text \<open>
  C3.  Reordering the children of a group gives an equivalent group.
\<close>

theorem complexExpression_order_independent:
  assumes "mset es' = mset es"
  shows "isEquivalent (complexExpression opr es) (complexExpression opr es')"
proof -
  have "list_all2 isEquivalent es es"
    by (rule list_all2_refl_on[OF good_UNIV]) simp
  with assms have "\<exists>q. mset q = mset es' \<and> list_all2 isEquivalent es q" by metis
  then show ?thesis
    using group_char[OF good_UNIV, of es es' opr opr] by simp
qed

theorem complexExpression_order_independent_witness:
  "mset [simpleExpression ''c'' ''d'' ''='', simpleExpression ''a'' ''b'' ''='']
     = mset [simpleExpression ''a'' ''b'' ''='', simpleExpression ''c'' ''d'' ''='']
   \<and> isEquivalent
        (complexExpression ''&&'' [simpleExpression ''a'' ''b'' ''='', simpleExpression ''c'' ''d'' ''=''])
        (complexExpression ''&&'' [simpleExpression ''c'' ''d'' ''='', simpleExpression ''a'' ''b'' ''=''])"
proof -
  have h: "mset [simpleExpression ''c'' ''d'' ''='', simpleExpression ''a'' ''b'' ''='']
     = mset [simpleExpression ''a'' ''b'' ''='', simpleExpression ''c'' ''d'' ''='']"
    by simp
  from complexExpression_order_independent[OF h, of "''&&''"] h show ?thesis by blast
qed

section \<open>Errors of the parser\<close>

text \<open>
  C8.  When the numbers of opening and closing parentheses differ, \<^const>\<open>parse\<close>
  fails with the broken-parenthesis error, whatever else the input holds.  The
  count is taken on the raw input; stripping white space and braces does not
  change it, so the same holds for the count on the stripped input.
\<close>

theorem parse_unbalanced_parenthesis:
  assumes "Count s CHR ''('' \<noteq> Count s CHR '')''
           \<or> Count (stripped s) CHR ''('' \<noteq> Count (stripped s) CHR '')''"
  shows "parse s = Inl BrokenParenthesis"
proof -
  have "Count (stripped s) CHR ''('' = Count s CHR ''(''"
    and "Count (stripped s) CHR '')'' = Count s CHR '')''"
    by (simp_all add: Count_stripped paren_def)
  with assms have "Count s CHR ''('' \<noteq> Count s CHR '')''" by auto
  then show ?thesis by (simp add: parse_def)
qed

theorem parse_unbalanced_parenthesis_witness:
  "Count ''{ (a=b)) }'' CHR ''('' \<noteq> Count ''{ (a=b)) }'' CHR '')''
   \<and> parse ''{ (a=b)) }'' = Inl BrokenParenthesis"
proof -
  have h: "Count ''{ (a=b)) }'' CHR ''('' \<noteq> Count ''{ (a=b)) }'' CHR '')''"
    by (simp add: Count_def)
  from parse_unbalanced_parenthesis[of "''{ (a=b)) }''"] h show ?thesis by blast
qed

text \<open>
  C4.  The input \<^verbatim>\<open>{}\<close> is parsed without an error into a group that has no
  child and whose operator is the empty string, neither \<^verbatim>\<open>&&\<close> nor \<^verbatim>\<open>||\<close>; two
  parenthesised comparisons with no connective between them give a group of two
  children with the empty operator.
\<close>

theorem parse_empty_group:
  "parse ''{}'' = Inr (complexExpression [] [])
   \<and> parse ''(a=b)(c=d)'' =
       Inr (complexExpression [] [simpleExpression ''a'' ''b'' ''='', simpleExpression ''c'' ''d'' ''=''])"
  by (simp add: string_eval parser_eval)

text \<open>
  C9.  A leaf in which two comparison operators occur one after the other, each of
  them \<^verbatim>\<open>NOT EXISTS\<close>, \<^verbatim>\<open>!=\<close> or \<^verbatim>\<open>=\<close>, with any text before, between and
  after them, is rejected: \<^const>\<open>parseSimpleStatement\<close> fails with the
  multiple-operators error, whichever operator was recorded first.  The operators
  are tried in the order \<^verbatim>\<open>NOT EXISTS\<close>, \<^verbatim>\<open>!=\<close>, \<^verbatim>\<open>=\<close>, so that a text ending in
  \<^verbatim>\<open>!=\<close> is matched as \<^verbatim>\<open>!=\<close> and not as \<^verbatim>\<open>=\<close>.
  \<^verbatim>\<open>parse("{   $.eventName == a }")\<close> returns the multiple-operators error.
\<close>

theorem parseSimpleStatement_two_operators:
  "(op1 \<in> set listComparisonOperator \<and> op2 \<in> set listComparisonOperator
    \<longrightarrow> parseSimpleStatement (a @ op1 @ b @ op2 @ c) = Inl MultipleComparisonOperators)
   \<and> listComparisonOperator = [''NOT EXISTS'', ''!='', ''='']
   \<and> hasSuffixComparisonOp (a @ ''!='') = Some ''!=''
   \<and> parse ''{   $.eventName == a }'' = Inl MultipleComparisonOperators"
proof (intro conjI impI)
  assume "op1 \<in> set listComparisonOperator \<and> op2 \<in> set listComparisonOperator"
  then show "parseSimpleStatement (a @ op1 @ b @ op2 @ c) = Inl MultipleComparisonOperators"
    using two_operators by blast
next
  show "listComparisonOperator = [''NOT EXISTS'', ''!='', ''='']"
    by (simp add: listComparisonOperator_def coEqual_def coNotEqual_def coNotExists_def)
next
  show "hasSuffixComparisonOp (a @ ''!='') = Some ''!=''"
    by (simp add: hasSuffixComparisonOp_def listComparisonOperator_def coEqual_def
        coNotEqual_def coNotExists_def HasSuffix_append HasSuffix_def)
next
  show "parse ''{   $.eventName == a }'' = Inl MultipleComparisonOperators"
    by (simp add: string_eval parser_eval)
qed

theorem parseSimpleStatement_two_operators_witness:
  "''='' \<in> set listComparisonOperator \<and> ''NOT EXISTS'' \<in> set listComparisonOperator
   \<and> parseSimpleStatement ''a = b NOT EXISTS'' = Inl MultipleComparisonOperators"
  using parseSimpleStatement_two_operators[of "''=''" "''NOT EXISTS''" "''a ''" "'' b ''" "[]"]
  by (simp add: listComparisonOperator_def coEqual_def coNotEqual_def coNotExists_def)





section \<open>The two versions of the parser\<close>

text \<open>
  C10.  On an ASCII input that holds no parenthesis and no occurrence of \<^verbatim>\<open>&&\<close> or
  \<^verbatim>\<open>||\<close>, and that is not empty once white space and braces are stripped, the
  earlier and the later version of \<^verbatim>\<open>parse\<close> return the same result: that of
  \<^const>\<open>parseSimpleStatement\<close> on the stripped input, which is a comparison or an
  error.
\<close>

theorem parse_versions_agree:
  assumes "list_all isAscii s" "CHR ''('' \<notin> set s" "CHR '')'' \<notin> set s"
    and "\<not> Contains s ''&&''" "\<not> Contains s ''||''" "stripped s \<noteq> []"
  shows "parse_old s = parse s \<and> parse s = parseSimpleStatement (stripped s)
         \<and> (\<forall>t. parse s = Inr t \<longrightarrow> (\<exists>l r op. t = simpleExpression l r op))"
proof -
  define x where "x = stripped s"
  from ascii_stripped[OF assms(1)] obtain u v where xa: "list_all isAscii x"
    and xt: "TrimSpace x = x" and xi: "s = u @ x @ v"
    unfolding x_def by blast
  have xo: "CHR ''('' \<notin> set x" and xc: "CHR '')'' \<notin> set x"
    using assms(2,3) xi by auto
  have c1: "\<not> Contains x ''&&''" and c2: "\<not> Contains x ''||''"
    using assms(4,5) Contains_infix[OF _ xi] by blast+
  have cnt: "Count s CHR ''('' = Count s CHR '')''"
    using assms(2,3) by (simp add: Count_def)
  have new: "parse s = parseSimpleStatement x"
    using cnt safeParse_plain[OF xa xo c1 c2 xt] assms(6)
    by (simp add: parse_stripped x_def)
  have old: "parse_old s = parseSimpleStatement x"
    using safeParse_old_plain[OF xa xo xc c1 c2]
    by (simp add: parse_old_def stripped_def x_def)
  show ?thesis
    using new old parseSimpleStatement_result[of x] unfolding x_def by auto
qed

theorem parse_versions_agree_witness:
  "list_all isAscii ''{ a = b }'' \<and> CHR ''('' \<notin> set ''{ a = b }'' \<and> CHR '')'' \<notin> set ''{ a = b }''
   \<and> \<not> Contains ''{ a = b }'' ''&&'' \<and> \<not> Contains ''{ a = b }'' ''||''
   \<and> stripped ''{ a = b }'' = ''a = b''
   \<and> parse_old ''{ a = b }'' = parse ''{ a = b }''
   \<and> parse ''{ a = b }'' = Inr (simpleExpression ''a'' ''b'' ''='')"
proof -
  let ?s = "''{ a = b }''"
  have h1: "list_all isAscii ?s" by (simp add: isAscii_def)
  have h2: "CHR ''('' \<notin> set ?s" "CHR '')'' \<notin> set ?s" by simp_all
  have h3: "\<not> Contains ?s ''&&''" "\<not> Contains ?s ''||''" by simp_all
  have st: "stripped ?s = ''a = b''" by (simp add: stripped_def string_eval)
  then have h4: "stripped ?s \<noteq> []" by simp
  have v: "parseSimpleStatement ''a = b'' = Inr (simpleExpression ''a'' ''b'' ''='')"
    by (simp add: string_eval parser_eval)
  from parse_versions_agree[OF h1 h2 h3 h4] h1 h2 h3 st v show ?thesis by simp
qed


end
